theory Spec2Isabelle
  imports Complex_Main "HOL-Library.Sublist"
begin

section \<open>Dates and the date sequencer\<close>

text \<open>
  \<^verbatim>\<open>MapDate\<close> is the pair of a day ordinal and its label (the field
  \<^verbatim>\<open>text\<close> of the source is \<^verbatim>\<open>text_of\<close> here). The worker's
  \<^verbatim>\<open>eu4IncrementDate(days, step)\<close> lives outside the encoder, so it is a parameter
  of every definition that calls it.
\<close>

record MapDate =
  days :: int
  text_of :: string

datatype DateInterval = Year | Month | Week | Day

type_synonym Eu4Worker = "int \<Rightarrow> DateInterval \<Rightarrow> MapDate"

text \<open>
  \<^verbatim>\<open>dates\<close> is an async generator. Its control state is where it is suspended:
  not yet started, suspended at \<^verbatim>\<open>yield current\<close>, or finished.
  \<^verbatim>\<open>dates_next\<close> is one resumption: it runs to the next \<^verbatim>\<open>yield\<close> (\<open>Some\<close>) or to
  the \<^verbatim>\<open>break\<close> (\<open>None\<close>). The worker is asked for the next date before the
  comparison with the end date, as in the source.
\<close>

datatype dates_gen = DatesFresh | DatesAt MapDate | DatesDone

definition dates_next ::
  "Eu4Worker \<Rightarrow> MapDate \<Rightarrow> MapDate \<Rightarrow> DateInterval \<Rightarrow> dates_gen \<Rightarrow> MapDate option \<times> dates_gen" where
  "dates_next worker start endDate step g =
     (case g of
        DatesFresh \<Rightarrow> (Some start, DatesAt start)
      | DatesAt current \<Rightarrow>
          (let newDate = worker (days current) step in
           if days current \<ge> days endDate then (None, DatesDone)
           else if days newDate > days endDate then (Some endDate, DatesAt endDate)
           else (Some newDate, DatesAt newDate))
      | DatesDone \<Rightarrow> (None, DatesDone))"

text \<open>
  The whole sequence, drained to the end. The loop has no bound of its own (a worker
  that does not move forward keeps it running), so not finishing is the value \<open>None\<close>.
\<close>

partial_function (option) dates_from ::
  "Eu4Worker \<Rightarrow> MapDate \<Rightarrow> MapDate \<Rightarrow> DateInterval \<Rightarrow> dates_gen \<Rightarrow> MapDate list option" where
  "dates_from worker start endDate step g =
     (case dates_next worker start endDate step g of
        (None, _) \<Rightarrow> Some []
      | (Some d, g') \<Rightarrow>
          Option.bind (dates_from worker start endDate step g') (\<lambda>ds. Some (d # ds)))"

definition dates :: "Eu4Worker \<Rightarrow> MapDate \<Rightarrow> MapDate \<Rightarrow> DateInterval \<Rightarrow> MapDate list option" where
  "dates worker start endDate step = dates_from worker start endDate step DatesFresh"


section \<open>JavaScript numbers\<close>

text \<open>
  Day ordinals and the frame counter are whole numbers far below \<open>2^53\<close>, where
  JavaScript's arithmetic is exact: they are \<open>int\<close> and \<open>nat\<close>. Timestamps, durations
  and bitrates are IEEE 754 binary64 values that the code adds, multiplies and divides;
  each operation rounds its exact result to the nearest number with a 53-bit significand,
  ties to the even significand. \<^verbatim>\<open>rnd\<close> is that rounding on the rationals, for
  magnitudes in the normal range (no overflow to infinity, no subnormals); a division by
  zero, which gives an infinity in JavaScript, is outside the model.
\<close>

definition rne :: "rat \<Rightarrow> int" where
  "rne q = (let f = \<lfloor>q\<rfloor>; r = q - of_int f in
            if r < 1 / 2 then f else if 1 / 2 < r then f + 1
            else if even f then f else f + 1)"

text \<open>
  \<^verbatim>\<open>blen n\<close> is the number of binary digits of a positive integer, and
  \<^verbatim>\<open>ilog2 x\<close> the exponent \<open>e\<close> with \<open>2^e \<le> x < 2^(e+1)\<close> of a positive rational.
\<close>

function blen :: "int \<Rightarrow> int" where
  "blen n = (if 0 < n then blen (n div 2) + 1 else 0)"
  by pat_completeness auto
termination
  by (relation "measure nat") auto

declare blen.simps [simp del]

definition ilog2 :: "rat \<Rightarrow> int" where
  "ilog2 x = (if 1 \<le> x then blen \<lfloor>x\<rfloor> - 1 else - blen (\<lceil>1 / x\<rceil> - 1))"

definition ulp :: "rat \<Rightarrow> rat" where
  "ulp x = 2 powi (ilog2 \<bar>x\<bar> - 52)"

definition rnd :: "rat \<Rightarrow> rat" where
  "rnd x = (if x = 0 then 0 else sgn x * of_int (rne (\<bar>x\<bar> / ulp x)) * ulp x)"

definition js_add :: "rat \<Rightarrow> rat \<Rightarrow> rat" where
  "js_add x y = rnd (x + y)"

definition js_mul :: "rat \<Rightarrow> rat \<Rightarrow> rat" where
  "js_mul x y = rnd (x * y)"

definition js_div :: "rat \<Rightarrow> rat \<Rightarrow> rat" where
  "js_div x y = rnd (x / y)"

definition is_double :: "rat \<Rightarrow> bool" where
  "is_double x \<longleftrightarrow> rnd x = x"


section \<open>The timelapse encoder\<close>

text \<open>
  The options the encoder is created from (the renderer, the map payload and the drawing
  context do not take part in any decision of the pipeline and are left out).
\<close>

record TimelapseEncoderOptions =
  fps :: rat
  interval :: DateInterval
  worker :: Eu4Worker
  startDate :: MapDate
  endDate :: MapDate
  freezeFrame :: rat

text \<open>
  One call of \<^verbatim>\<open>encoder.encode(frame, {keyFrame})\<close>: the frame's timestamp and duration
  in microseconds, the date whose map and label were painted on the canvas the frame was
  taken from, and the keyframe flag. The chunk the encoder later hands to its
  \<^verbatim>\<open>output\<close> callback is identified with the call it comes from.
\<close>

record EncodeCall =
  frame_timestamp :: rat
  frame_duration :: rat
  frame_date :: MapDate
  keyFrame :: bool

type_synonym EncodedVideoChunk = EncodeCall

text \<open>
  The mutable fields of the class, with the encoder and the muxer as what the code can
  do to them: \<^verbatim>\<open>encoded\<close> lists the calls of \<^verbatim>\<open>encode\<close>, oldest first,
  \<^verbatim>\<open>muxer\<close> the chunks passed to \<^verbatim>\<open>addVideoChunk\<close>, and
  \<^verbatim>\<open>encoder_closed\<close> says whether \<^verbatim>\<open>encoder.close()\<close> has run.
\<close>

record TimelapseEncoder =
  error :: "string option"
  timestamp :: rat
  frameCount :: nat
  stopRequested :: bool
  encoded :: "EncodeCall list"
  muxer :: "EncodedVideoChunk list"
  encoder_closed :: bool

definition new_encoder :: TimelapseEncoder where
  "new_encoder = \<lparr>error = None, timestamp = 0, frameCount = 0, stopRequested = False,
                   encoded = [], muxer = [], encoder_closed = False\<rparr>"

definition stop :: "TimelapseEncoder \<Rightarrow> TimelapseEncoder" where
  "stop s = s\<lparr>stopRequested := True\<rparr>"

text \<open>
  What can happen while the generator is suspended: the encoder calls one of the two
  callbacks the constructor gave it (\<^verbatim>\<open>output\<close> adds the chunk to the muxer,
  \<^verbatim>\<open>error\<close> stores the exception, of which only the message is ever read), or the
  caller calls \<^verbatim>\<open>stop()\<close>.
\<close>

datatype event = EncoderOutput EncodedVideoChunk | EncoderError string | StopCall

fun apply_event :: "TimelapseEncoder \<Rightarrow> event \<Rightarrow> TimelapseEncoder" where
  "apply_event s (EncoderOutput chunk) = s\<lparr>muxer := muxer s @ [chunk]\<rparr>"
| "apply_event s (EncoderError msg) = s\<lparr>error := Some msg\<rparr>"
| "apply_event s StopCall = stop s"

definition apply_events :: "event list \<Rightarrow> TimelapseEncoder \<Rightarrow> TimelapseEncoder" where
  "apply_events es s = foldl apply_event s es"

text \<open>
  An advancement of the generator is run against a schedule: the events that arrive at
  its successive suspension points, one list per point, none once the schedule is used up.
\<close>

definition await_events ::
  "event list list \<Rightarrow> TimelapseEncoder \<Rightarrow> event list list \<times> TimelapseEncoder" where
  "await_events env s = (case env of [] \<Rightarrow> ([], s) | es # env' \<Rightarrow> (env', apply_events es s))"

text \<open>
  \<^verbatim>\<open>this.encoder.encode(frame, { keyFrame: (this.frameCount += 1) % 150 == 0 })\<close>,
  the same at both places of the source.
\<close>

definition encode :: "rat \<Rightarrow> rat \<Rightarrow> MapDate \<Rightarrow> TimelapseEncoder \<Rightarrow> TimelapseEncoder" where
  "encode t frameDuration date s =
     (let n = frameCount s + 1 in
      s\<lparr>frameCount := n,
        encoded := encoded s @
          [\<lparr>frame_timestamp = t, frame_duration = frameDuration, frame_date = date,
            keyFrame = (n mod 150 = 0)\<rparr>]\<rparr>)"

text \<open>
  The freeze-frame loop: \<^verbatim>\<open>t\<close> is a local variable, the bound is recomputed from the
  fields at every test, and each round submits the canvas again and awaits the flush.
  Nothing bounds the loop when the frame duration is not positive, so it is a partial
  function.
\<close>

partial_function (option) freeze_frames ::
  "rat \<Rightarrow> rat \<Rightarrow> MapDate \<Rightarrow> event list list \<Rightarrow> rat \<Rightarrow> TimelapseEncoder \<Rightarrow> TimelapseEncoder option" where
  "freeze_frames frameDuration freeze date env t s =
     (if t < js_add (timestamp s) (js_mul freeze 1000000) then
        (case await_events env (encode t frameDuration date s) of
           (env', s') \<Rightarrow> freeze_frames frameDuration freeze date env' (js_add t frameDuration) s')
      else Some s)"

text \<open>
  The calls that \<open>n\<close> rounds of the freeze-frame loop make, from the local time
  \<open>t\<close> and the counter value \<open>c\<close>: the trace the loop is compared with.
\<close>

definition freeze_calls :: "rat \<Rightarrow> MapDate \<Rightarrow> rat \<Rightarrow> nat \<Rightarrow> nat \<Rightarrow> EncodeCall list" where
  "freeze_calls frameDuration date t c n =
     map (\<lambda>k. \<lparr>frame_timestamp = ((\<lambda>x. js_add x frameDuration) ^^ k) t,
               frame_duration = frameDuration, frame_date = date,
               keyFrame = ((c + k + 1) mod 150 = 0)\<rparr>) [0..<n]"

text \<open>
  \<^verbatim>\<open>timelapse()\<close> is an async generator over \<^verbatim>\<open>dates\<close>. Its control state is the
  state of the inner generator once it has been started; a call of \<^verbatim>\<open>next()\<close> gives a
  date, the end of the sequence, or an exception.
\<close>

datatype timelapse_gen = TimelapseFresh | TimelapseAt dates_gen | TimelapseDone

datatype step_result = Yield MapDate | Return | Throw string

text \<open>
  The inner \<^verbatim>\<open>dates\<close> generator of the loop: created at the first call of
  \<^verbatim>\<open>next()\<close>, kept while the outer generator is suspended.
\<close>

definition dates_of :: "timelapse_gen \<Rightarrow> dates_gen" where
  "dates_of g = (case g of TimelapseAt dg \<Rightarrow> dg | _ \<Rightarrow> DatesFresh)"

text \<open>
  One call of \<^verbatim>\<open>next()\<close>. The suspension points, in order: the time since the last
  suspension up to the checkpoint (the caller holding the yielded date, and the await of
  \<^verbatim>\<open>eu4IncrementDate\<close> inside \<^verbatim>\<open>dates\<close>), the await of \<^verbatim>\<open>eu4MapColors\<close>, the flush
  of the stepped frame, and the flush of every freeze frame. \<open>None\<close> is a call that
  never comes back.
\<close>

definition timelapse_next ::
  "TimelapseEncoderOptions \<Rightarrow> event list list \<Rightarrow> timelapse_gen \<times> TimelapseEncoder \<Rightarrow>
   (step_result \<times> timelapse_gen \<times> TimelapseEncoder) option" where
  "timelapse_next opts env gs =
     (case gs of (g, s) \<Rightarrow>
      let frameDuration = js_div 1000000 (fps opts) in
      case await_events env s of (env1, s0) \<Rightarrow>
      (case g of
         TimelapseDone \<Rightarrow> Some (Return, TimelapseDone, s0)
       | _ \<Rightarrow>
         (case dates_next (worker opts) (startDate opts) (endDate opts) (interval opts)
                 (dates_of g) of
            (None, _) \<Rightarrow> Some (Return, TimelapseDone, s0)
          | (Some date, dg') \<Rightarrow>
              (case error s0 of
                 Some msg \<Rightarrow> Some (Throw msg, TimelapseDone, s0)
               | None \<Rightarrow>
                   if stopRequested s0 then Some (Return, TimelapseDone, s0)
                   else
                     (case await_events env1 s0 of (env2, s1) \<Rightarrow>
                      case await_events env2 (encode (timestamp s1) frameDuration date s1) of
                        (env3, s3) \<Rightarrow>
                      let s4 = s3\<lparr>timestamp := js_add (timestamp s3) frameDuration\<rparr> in
                      if days date \<ge> days (endDate opts) then
                        Option.bind
                          (freeze_frames frameDuration (freezeFrame opts) date env3 (timestamp s4) s4)
                          (\<lambda>s5. Some (Yield date, TimelapseAt dg', s5))
                      else Some (Yield date, TimelapseAt dg', s4))))))"

text \<open>
  Successive calls of \<^verbatim>\<open>next()\<close>, one schedule per call, whatever they return.
\<close>

fun timelapse_steps ::
  "TimelapseEncoderOptions \<Rightarrow> event list list list \<Rightarrow> timelapse_gen \<times> TimelapseEncoder \<Rightarrow>
   (timelapse_gen \<times> TimelapseEncoder) option" where
  "timelapse_steps opts [] gs = Some gs"
| "timelapse_steps opts (env # envs) gs =
     (case timelapse_next opts env gs of
        None \<Rightarrow> None
      | Some (r, gs') \<Rightarrow> timelapse_steps opts envs gs')"

text \<open>
  \<^verbatim>\<open>finish()\<close>. The muxer is a library; its \<^verbatim>\<open>finalize()\<close> is a parameter, a function
  of the chunks it was given that has either a buffer or nothing to return.
\<close>

definition finish ::
  "(EncodedVideoChunk list \<Rightarrow> 'b option) \<Rightarrow> TimelapseEncoder \<Rightarrow> (string + 'b) \<times> TimelapseEncoder" where
  "finish finalize s =
     (case finalize (muxer s) of
        None \<Rightarrow> (Inl ''empty muxer'', s)
      | Some out \<Rightarrow> (Inr out, s\<lparr>encoder_closed := True\<rparr>))"






section \<open>Codec negotiation\<close>

text \<open>
  \<^verbatim>\<open>VideoEncoder.isConfigSupported\<close> belongs to the platform and is a parameter: for a
  configuration it answers with a support record, or it fails (\<open>None\<close>), which the
  source catches and treats like a refusal. The search returns its outcome together with
  the queries it made, in the order it made them.
\<close>

record VideoEncoderConfig =
  codec :: string
  height :: rat
  width :: rat
  bitrateMode :: string
  bitrate :: rat
  framerate :: rat

record VideoEncoderSupport =
  supported :: bool
  config :: VideoEncoderConfig

record EncoderConfig = VideoEncoderConfig +
  webmCodec :: string

definition codecs :: "(string \<times> string) list" where
  "codecs = [(''vp09.00.10.08'', ''V_VP9''), (''vp8'', ''V_VP8'')]"

fun try_codecs ::
  "(VideoEncoderConfig \<Rightarrow> VideoEncoderSupport option) \<Rightarrow> rat \<Rightarrow> rat \<Rightarrow> rat \<Rightarrow>
   (string \<times> string) list \<Rightarrow> (string + EncoderConfig) \<times> VideoEncoderConfig list" where
  "try_codecs isConfigSupported h w rate [] = (Inl ''No supported codecs found'', [])"
| "try_codecs isConfigSupported h w rate ((c, wc) # rest) =
     (let canvasRate = js_div (js_mul h w) 4;
          bitrate = js_add (js_mul canvasRate (js_div rate 15)) 200000;
          query = \<lparr>codec = c, height = h, width = w, bitrateMode = ''variable'',
                   bitrate = min bitrate 2000000, framerate = rate\<rparr>;
          continue = (case try_codecs isConfigSupported h w rate rest of
                        (r, queries) \<Rightarrow> (r, query # queries))
      in case isConfigSupported query of
           None \<Rightarrow> continue
         | Some support \<Rightarrow>
             if supported support
             then (Inr (VideoEncoderConfig.extend (config support) (EncoderConfig.fields wc)),
                   [query])
             else continue)"

definition findSupportedEncoder ::
  "(VideoEncoderConfig \<Rightarrow> VideoEncoderSupport option) \<Rightarrow> rat \<Rightarrow> rat \<Rightarrow> rat \<Rightarrow>
   (string + EncoderConfig) \<times> VideoEncoderConfig list" where
  "findSupportedEncoder isConfigSupported h w rate =
     try_codecs isConfigSupported h w rate codecs"

section \<open>Example inputs\<close>

text \<open>
  A stand-in for the engine's date arithmetic, used only to run the definitions on
  concrete inputs: it moves forward by 365, 30, 7 or 1 days and labels the date with
  nothing.
\<close>

definition calendar_worker :: Eu4Worker where
  "calendar_worker d step =
     \<lparr>days = d + (case step of Year \<Rightarrow> 365 | Month \<Rightarrow> 30 | Week \<Rightarrow> 7 | Day \<Rightarrow> 1),
      text_of = []\<rparr>"

definition day :: "int \<Rightarrow> MapDate" where
  "day d = \<lparr>days = d, text_of = []\<rparr>"

text \<open>A platform that knows VP8 only, and answers with the configuration it was asked.\<close>

definition vp8_only :: "VideoEncoderConfig \<Rightarrow> VideoEncoderSupport option" where
  "vp8_only q = Some \<lparr>supported = (codec q = ''vp8''), config = q\<rparr>"

text \<open>
  Four sets of options: a single date held for one second at 1 and at 6 frames per
  second, a single date held for three seconds at 50 frames per second, and three yearly
  dates with no hold.
\<close>

definition opts_1fps :: TimelapseEncoderOptions where
  "opts_1fps = \<lparr>fps = 1, interval = Year, worker = calendar_worker,
             startDate = day 0, endDate = day 0, freezeFrame = 1\<rparr>"

definition opts_6fps :: TimelapseEncoderOptions where
  "opts_6fps = \<lparr>fps = 6, interval = Year, worker = calendar_worker,
             startDate = day 0, endDate = day 0, freezeFrame = 1\<rparr>"

definition opts_50fps :: TimelapseEncoderOptions where
  "opts_50fps = \<lparr>fps = 50, interval = Year, worker = calendar_worker,
             startDate = day 0, endDate = day 0, freezeFrame = 3\<rparr>"

definition opts_years :: TimelapseEncoderOptions where
  "opts_years = \<lparr>fps = 1, interval = Year, worker = calendar_worker,
             startDate = day 0, endDate = day 730, freezeFrame = 0\<rparr>"

text \<open>
  The encoder after the first date of \<^verbatim>\<open>opts_years\<close>, and after the only date of
  \<^verbatim>\<open>opts_1fps\<close> (with the captured error, if any).
\<close>

definition after_first_year :: TimelapseEncoder where
  "after_first_year =
     \<lparr>error = None, timestamp = 1000000, frameCount = 1, stopRequested = False,
      encoded = [\<lparr>frame_timestamp = 0, frame_duration = 1000000, frame_date = day 0,
                  keyFrame = False\<rparr>],
      muxer = [], encoder_closed = False\<rparr>"

definition after_one_day :: "string option \<Rightarrow> TimelapseEncoder" where
  "after_one_day err =
     \<lparr>error = err, timestamp = 1000000, frameCount = 2, stopRequested = False,
      encoded = [\<lparr>frame_timestamp = 0, frame_duration = 1000000, frame_date = day 0,
                  keyFrame = False\<rparr>,
                 \<lparr>frame_timestamp = 1000000, frame_duration = 1000000, frame_date = day 0,
                  keyFrame = False\<rparr>],
      muxer = [], encoder_closed = False\<rparr>"



section \<open>The date sequencer: properties\<close>

lemma dates_from_at_end:
  "days b \<le> days current \<Longrightarrow>
   dates_from w a b step (DatesAt current) = Some []"
  by (subst dates_from.simps) (simp add: dates_next_def)

lemma dates_from_at_step:
  "days current < days b \<Longrightarrow>
   dates_from w a b step (DatesAt current) =
     (let newDate = w (days current) step;
          nxt = (if days newDate > days b then b else newDate)
      in Option.bind (dates_from w a b step (DatesAt nxt))
           (\<lambda>ds. Some (nxt # ds)))"
  by (subst dates_from.simps) (simp add: dates_next_def Let_def)

lemma dates_fresh:
  "dates w a b step =
     Option.bind (dates_from w a b step (DatesAt a))
       (\<lambda>ds. Some (a # ds))"
  unfolding dates_def by (subst dates_from.simps) (simp add: dates_next_def)

text \<open>
  From a suspended generator that has not passed the end date, and with a worker that
  moves every day before the end date strictly forward, the rest of the sequence is
  finite, stays strictly after the current date, is ordered, and ends on the end day;
  each of its elements is the end date itself or an answer of the worker.
\<close>

lemma dates_from_progress:
  assumes prog: "\<And>d. d < days b \<Longrightarrow> d < days (w d step)"
  shows "days current \<le> days b \<Longrightarrow>
     \<exists>xs. dates_from w a b step (DatesAt current) = Some xs
        \<and> (xs = [] \<longleftrightarrow> days current = days b)
        \<and> (xs \<noteq> [] \<longrightarrow> days (last xs) = days b)
        \<and> (\<forall>d \<in> set xs. days current < days d)
        \<and> (\<forall>d \<in> set xs. d = b \<or> (\<exists>n. d = w n step))
        \<and> sorted (map days xs)"
proof (induction "nat (days b - days current)" arbitrary: current rule: less_induct)
  case less
  show ?case
  proof (cases "days current = days b")
    case True
    then show ?thesis by (simp add: dates_from_at_end)
  next
    case False
    with less.prems have lt: "days current < days b" by simp
    define newDate where "newDate = w (days current) step"
    define nxt where "nxt = (if days newDate > days b then b else newDate)"
    have adv: "days current < days newDate" using prog[OF lt] by (simp add: newDate_def)
    have nxt_le: "days nxt \<le> days b" and nxt_gt: "days current < days nxt"
      using adv lt by (auto simp: nxt_def)
    have nxt_src: "nxt = b \<or> (\<exists>n. nxt = w n step)"
      by (auto simp: nxt_def newDate_def)
    have "nat (days b - days nxt) < nat (days b - days current)"
      using nxt_gt nxt_le by simp
    from less.hyps[OF this nxt_le] obtain xs where
      xs: "dates_from w a b step (DatesAt nxt) = Some xs"
      and e: "xs = [] \<longleftrightarrow> days nxt = days b"
      and l: "xs \<noteq> [] \<longrightarrow> days (last xs) = days b"
      and g: "\<forall>d \<in> set xs. days nxt < days d"
      and o: "\<forall>d \<in> set xs. d = b \<or> (\<exists>n. d = w n step)"
      and s: "sorted (map days xs)" by blast
    have eq: "dates_from w a b step (DatesAt current) = Some (nxt # xs)"
      using xs
      unfolding dates_from_at_step[OF lt] Let_def newDate_def[symmetric] nxt_def[symmetric]
      by simp
    have "days (last (nxt # xs)) = days b" using e l by simp
    moreover have "\<forall>d \<in> set (nxt # xs). days current < days d" using g nxt_gt by auto
    moreover have "\<forall>d \<in> set (nxt # xs). d = b \<or> (\<exists>n. d = w n step)"
      using o nxt_src by simp
    moreover have "sorted (map days (nxt # xs))" using s g by (auto simp: less_imp_le)
    ultimately show ?thesis using eq False by (intro exI[of _ "nxt # xs"]) simp
  qed
qed

text \<open>
  Claim C1. When the start day is not after the end day, and the engine's increment
  moves every day before the end day strictly forward (the engine is outside the
  encoder; without this the loop need not end), \<^verbatim>\<open>dates\<close> produces a finite,
  non-empty sequence whose first element is \<^verbatim>\<open>start\<close>, whose last element is on the
  end day (dates are compared by their day ordinal; the element is \<^verbatim>\<open>end\<close> itself
  when the last step would pass it, and otherwise \<^verbatim>\<open>start\<close> or the worker's answer
  for that day), and whose day ordinals never decrease; when start and end are the same
  day the sequence is \<^verbatim>\<open>start\<close> alone.
\<close>

theorem dates_spans_range:
  assumes "days a \<le> days b"
    and "\<And>d. d < days b \<Longrightarrow> d < days (w d step)"
  shows "\<exists>xs. dates w a b step = Some xs
        \<and> xs \<noteq> [] \<and> hd xs = a \<and> days (last xs) = days b
        \<and> (last xs = b \<or> last xs = a \<or> (\<exists>n. last xs = w n step))
        \<and> sorted (map days xs)
        \<and> (days a = days b \<longrightarrow> xs = [a])"
proof -
  from dates_from_progress[of b w step a a, OF assms(2) assms(1)]
  obtain xs where
      xs: "dates_from w a b step (DatesAt a) = Some xs"
      and e: "xs = [] \<longleftrightarrow> days a = days b"
      and l: "xs \<noteq> [] \<longrightarrow> days (last xs) = days b"
      and g: "\<forall>d \<in> set xs. days a < days d"
      and o: "\<forall>d \<in> set xs. d = b \<or> (\<exists>n. d = w n step)"
      and s: "sorted (map days xs)" by blast
  have "dates w a b step = Some (a # xs)"
    using xs by (simp add: dates_fresh)
  moreover have "days (last (a # xs)) = days b" using e l by auto
  moreover have "last (a # xs) = b \<or> last (a # xs) = a \<or> (\<exists>n. last (a # xs) = w n step)"
    using o last_in_set[of xs] by (cases "xs = []") auto
  moreover have "sorted (map days (a # xs))" using s g by (auto simp: less_imp_le)
  ultimately show ?thesis using e by auto
qed

text \<open>
  Weekly steps from day 0 to day 20: the worker moves forward, and the sequence is
  day 0, 7, 14 and then the end date, day 20.
\<close>

lemma week_dates: "dates calendar_worker (day 0) (day 20) Week = Some [day 0, day 7, day 14, day 20]"
  by (simp add: dates_fresh dates_from_at_step dates_from_at_end calendar_worker_def day_def)

theorem dates_spans_range_witness:
  "days (day 0) \<le> days (day 20)
   \<and> dates calendar_worker (day 0) (day 20) Week = Some [day 0, day 7, day 14, day 20]
   \<and> (\<exists>xs. dates calendar_worker (day 0) (day 20) Week = Some xs
        \<and> xs \<noteq> [] \<and> hd xs = day 0 \<and> days (last xs) = days (day 20)
        \<and> sorted (map days xs))"
proof -
  have h1: "days (day 0) \<le> days (day 20)" by (simp add: day_def)
  have h2: "\<And>d. d < days (day 20) \<Longrightarrow> d < days (calendar_worker d Week)"
    by (simp add: calendar_worker_def)
  show ?thesis
    using h1 h2 week_dates
      dates_spans_range[of "day 0" "day 20" calendar_worker Week, OF h1 h2]
    by blast
qed

text \<open>
  Claim C9. When the start day is after the end day, \<^verbatim>\<open>dates\<close> produces exactly one
  element, \<^verbatim>\<open>start\<close>, whatever the worker answers: the first test after the first
  \<^verbatim>\<open>yield\<close> already breaks the loop.
\<close>

theorem dates_inverted_range:
  "days b < days a \<Longrightarrow> dates w a b step = Some [a]"
  by (simp add: dates_fresh dates_from_at_end)

theorem dates_inverted_range_witness:
  "days (day 3) < days (day 10)
   \<and> dates calendar_worker (day 10) (day 3) Year = Some [day 10]"
proof -
  have h: "days (day 3) < days (day 10)" by (simp add: day_def)
  show ?thesis
    using h dates_inverted_range[of "day 3" "day 10" calendar_worker Year, OF h] by simp
qed

section \<open>Rounding: properties\<close>

text \<open>
  The bit length and the exponent bracket their argument between two powers of two;
  from there, rounding is monotone, leaves a rounded number as it is, is exact on the
  integers below \<open>2^53\<close>, and can be checked against a given significand.
\<close>

lemma blen_pos: "0 < n \<Longrightarrow> blen n = blen (n div 2) + 1"
  by (subst blen.simps) simp

lemma blen_nonpos: "n \<le> 0 \<Longrightarrow> blen n = 0"
  by (subst blen.simps) simp

lemma blen_bounds:
  "0 < n \<Longrightarrow> 1 \<le> blen n \<and> 2 ^ nat (blen n - 1) \<le> n \<and> n < 2 ^ nat (blen n)"
proof (induction n rule: blen.induct)
  case (1 n)
  show ?case
  proof (cases "n = 1")
    case True
    then show ?thesis by (simp add: blen_pos blen_nonpos)
  next
    case False
    with 1(2) have h: "0 < n div 2" by simp
    from 1(1)[OF 1(2) h] have ih: "1 \<le> blen (n div 2)"
      "2 ^ nat (blen (n div 2) - 1) \<le> n div 2" "n div 2 < 2 ^ nat (blen (n div 2))" by simp_all
    have b: "blen n = blen (n div 2) + 1" using 1(2) by (rule blen_pos)
    have e1: "nat (blen n - 1) = Suc (nat (blen (n div 2) - 1))" using b ih(1) by simp
    have e2: "nat (blen n) = Suc (nat (blen (n div 2)))" using b ih(1) by simp
    have "(2::int) ^ nat (blen n - 1) \<le> 2 * (n div 2)" using ih(2) by (simp add: e1)
    also have "\<dots> \<le> n" by simp
    finally have lo: "2 ^ nat (blen n - 1) \<le> n" .
    have "n < 2 * (n div 2 + 1)" by simp
    also have "\<dots> \<le> 2 * 2 ^ nat (blen (n div 2))" using ih(3) by simp
    finally have hi: "n < 2 ^ nat (blen n)" by (simp add: e2)
    show ?thesis using b ih(1) lo hi by simp
  qed
qed

lemma ilog2_bounds:
  assumes "0 < x"
  shows "2 powi (ilog2 x) \<le> x \<and> x < 2 powi (ilog2 x + 1)"
proof (cases "1 \<le> x")
  case True
  define n where "n = \<lfloor>x\<rfloor>"
  have n: "0 < n" "of_int n \<le> x" "x < of_int n + 1"
    using True by (simp_all add: n_def) linarith
  from blen_bounds[OF n(1)] have b: "1 \<le> blen n" "2 ^ nat (blen n - 1) \<le> n" "n < 2 ^ nat (blen n)"
    by simp_all
  have il: "ilog2 x = blen n - 1" using True by (simp add: ilog2_def n_def)
  have "(2::rat) powi (blen n - 1) = of_int (2 ^ nat (blen n - 1))"
    using b(1) by (simp add: power_int_def)
  also have "\<dots> \<le> of_int n" using b(2) by (simp only: of_int_le_iff)
  also have "\<dots> \<le> x" by (rule n(2))
  finally have lo: "2 powi (ilog2 x) \<le> x" by (simp add: il)
  have "n + 1 \<le> 2 ^ nat (blen n)" using b(3) by simp
  then have "(of_int (n + 1) :: rat) \<le> of_int (2 ^ nat (blen n))" by (simp only: of_int_le_iff)
  then have "of_int n + 1 \<le> (2::rat) powi (blen n)" using b(1) by (simp add: power_int_def)
  with n(3) have hi: "x < 2 powi (ilog2 x + 1)" by (simp add: il)
  show ?thesis using lo hi by simp
next
  case False
  define z where "z = 1 / x"
  define n where "n = \<lceil>z\<rceil> - 1"
  have z: "1 < z" using False assms by (simp add: z_def)
  have n: "0 < n" "of_int n < z" "z \<le> of_int n + 1"
    using z by (simp_all add: n_def less_ceiling_iff) linarith+
  from blen_bounds[OF n(1)] have b: "1 \<le> blen n" "2 ^ nat (blen n - 1) \<le> n" "n < 2 ^ nat (blen n)"
    by simp_all
  have il: "ilog2 x = - blen n" using False by (simp add: ilog2_def n_def z_def)
  have "n + 1 \<le> 2 ^ nat (blen n)" using b(3) by simp
  then have "(of_int (n + 1) :: rat) \<le> of_int (2 ^ nat (blen n))" by (simp only: of_int_le_iff)
  then have "of_int n + 1 \<le> (2::rat) ^ nat (blen n)" by simp
  with n(3) have zle: "z \<le> 2 ^ nat (blen n)" by linarith
  have "(of_int (2 ^ nat (blen n - 1)) :: rat) \<le> of_int n" using b(2) by (simp only: of_int_le_iff)
  then have "(2::rat) ^ nat (blen n - 1) \<le> of_int n" by simp
  with n(2) have zgt: "2 ^ nat (blen n - 1) < z" by linarith
  have x: "x = 1 / z" using assms by (simp add: z_def)
  have p1: "(2::rat) powi (- blen n) = 1 / 2 ^ nat (blen n)"
    using b(1) by (simp add: power_int_def field_simps)
  have p2: "(2::rat) powi (- blen n + 1) = 1 / 2 ^ nat (blen n - 1)"
    using b(1) by (simp add: power_int_def field_simps)
  have "1 / 2 ^ nat (blen n) \<le> 1 / z" using zle z by (intro frac_le) simp_all
  then have lo: "2 powi (ilog2 x) \<le> x" unfolding il p1 by (simp add: z_def)
  have "1 / z < 1 / 2 ^ nat (blen n - 1)" using zgt z by (intro frac_less2) simp_all
  then have hi: "x < 2 powi (ilog2 x + 1)" unfolding il p2 by (simp add: z_def)
  show ?thesis using lo hi by simp
qed

lemma powi2_mono: "a \<le> b \<Longrightarrow> (2::rat) powi a \<le> 2 powi b"
  by (rule power_int_increasing) simp_all

lemma ilog2_unique:
  assumes "0 < x" "2 powi e \<le> x" "x < 2 powi (e + 1)"
  shows "ilog2 x = e"
proof (rule ccontr)
  assume ne: "ilog2 x \<noteq> e"
  from ilog2_bounds[OF assms(1)] have b: "2 powi (ilog2 x) \<le> x" "x < 2 powi (ilog2 x + 1)"
    by simp_all
  show False
  proof (cases "ilog2 x < e")
    case True
    then have "(2::rat) powi (ilog2 x + 1) \<le> 2 powi e" by (intro powi2_mono) simp
    with b(2) assms(2) show False by simp
  next
    case False
    with ne have "e + 1 \<le> ilog2 x" by simp
    then have "(2::rat) powi (e + 1) \<le> 2 powi (ilog2 x)" by (rule powi2_mono)
    with b(1) assms(3) show False by simp
  qed
qed

lemma rne_floor: "rne q = \<lfloor>q\<rfloor> \<or> rne q = \<lfloor>q\<rfloor> + 1"
  by (simp add: rne_def Let_def)

lemma rne_ge: "of_int k \<le> q \<Longrightarrow> k \<le> rne q"
proof -
  assume "of_int k \<le> q"
  then have "k \<le> \<lfloor>q\<rfloor>" by (simp add: le_floor_iff)
  then show ?thesis using rne_floor[of q] by auto
qed

lemma rne_of_int [simp]: "rne (of_int k) = k"
  by (simp add: rne_def Let_def)

lemma rne_le: "q \<le> of_int k \<Longrightarrow> rne q \<le> k"
proof -
  assume h: "q \<le> of_int k"
  then have fk: "\<lfloor>q\<rfloor> \<le> k" by (meson floor_le_iff le_less_trans less_add_one of_int_floor_le order_trans floor_mono floor_of_int)
  show ?thesis
  proof (cases "\<lfloor>q\<rfloor> = k")
    case True
    then have "of_int k \<le> q" by (metis of_int_floor_le)
    with h have "q = of_int k" by simp
    then show ?thesis by simp
  next
    case False
    with fk have "\<lfloor>q\<rfloor> + 1 \<le> k" by simp
    then show ?thesis using rne_floor[of q] by auto
  qed
qed

lemma rne_mono: "q \<le> r \<Longrightarrow> rne q \<le> rne r"
proof -
  assume le: "q \<le> r"
  then have fl: "\<lfloor>q\<rfloor> \<le> \<lfloor>r\<rfloor>" by (rule floor_mono)
  show ?thesis
  proof (cases "\<lfloor>q\<rfloor> = \<lfloor>r\<rfloor>")
    case False
    with fl have "\<lfloor>q\<rfloor> + 1 \<le> \<lfloor>r\<rfloor>" by simp
    then show ?thesis using rne_floor[of q] rne_floor[of r] by auto
  next
    case True
    then have "q - of_int \<lfloor>q\<rfloor> \<le> r - of_int \<lfloor>r\<rfloor>" using le by simp
    then show ?thesis using True by (auto simp: rne_def Let_def)
  qed
qed

lemma rne_eqI:
  assumes "(2 * of_int m - 1 < 2 * q \<and> 2 * q < 2 * of_int m + 1)
           \<or> (even m \<and> (2 * q = 2 * of_int m - 1 \<or> 2 * q = 2 * of_int m + 1))"
  shows "rne q = m"
proof -
  consider (near) "2 * of_int m - 1 < 2 * q" "2 * q < 2 * of_int m + 1"
    | (below) "even m" "q = of_int m - 1 / 2"
    | (above) "even m" "q = of_int m + 1 / 2"
    using assms by (auto simp: field_simps)
  then show ?thesis
  proof cases
    case near
    show ?thesis
    proof (cases "of_int m \<le> q")
      case True
      then have f: "\<lfloor>q\<rfloor> = m" using near(2) by (intro floor_unique) simp_all
      have "q - of_int m < 1 / 2" using near(2) by simp
      then show ?thesis by (simp add: rne_def Let_def f)
    next
      case False
      then have f: "\<lfloor>q\<rfloor> = m - 1" using near(1) by (intro floor_unique) simp_all
      have "1 / 2 < q - of_int (m - 1)" using near(1) by simp
      then show ?thesis by (simp add: rne_def Let_def f)
    qed
  next
    case below
    have f: "\<lfloor>q\<rfloor> = m - 1" unfolding below(2) by (intro floor_unique) simp_all
    have "q - of_int (m - 1) = 1 / 2" by (simp add: below(2))
    then show ?thesis using below(1) by (simp add: rne_def Let_def f)
  next
    case above
    have f: "\<lfloor>q\<rfloor> = m" unfolding above(2) by (intro floor_unique) simp_all
    have "q - of_int m = 1 / 2" by (simp add: above(2))
    then show ?thesis using above(1) by (simp add: rne_def Let_def f)
  qed
qed

lemma rnd_0 [simp]: "rnd 0 = 0"
  by (simp add: rnd_def)

lemma rnd_pos_eq:
  "0 < x \<Longrightarrow> rnd x = of_int (rne (x / 2 powi (ilog2 x - 52))) * 2 powi (ilog2 x - 52)"
  by (simp add: rnd_def ulp_def)

lemma rnd_minus: "rnd (- x) = - rnd x"
  by (simp add: rnd_def ulp_def sgn_minus)

lemma powi2_pos [simp]: "0 < (2::rat) powi e"
  by (simp add: power_int_def)

lemma powi2_split: "(2::rat) powi e = 2 ^ 52 * 2 powi (e - 52)"
proof -
  have "(2::rat) powi e = 2 powi (52 + (e - 52))" by simp
  also have "\<dots> = 2 powi 52 * 2 powi (e - 52)" by (subst power_int_add) simp_all
  finally show ?thesis by simp
qed

lemma powi2_Suc: "(2::rat) powi (e + 1) = 2 * 2 powi e"
  using power_int_add[of "2::rat" e 1] by simp

lemma rnd_binade:
  assumes "0 < x"
  shows "2 powi (ilog2 x) \<le> rnd x \<and> rnd x \<le> 2 powi (ilog2 x + 1)"
proof -
  define e where "e = ilog2 x"
  define u where "u = (2::rat) powi (e - 52)"
  have u: "0 < u" by (simp add: u_def)
  from ilog2_bounds[OF assms] have b: "2 powi e \<le> x" "x < 2 powi (e + 1)" by (simp_all add: e_def)
  have pe: "(2::rat) powi e = 2 ^ 52 * u" unfolding u_def by (rule powi2_split)
  have pe1: "(2::rat) powi (e + 1) = 2 ^ 53 * u"
    unfolding powi2_Suc pe by simp
  have "of_int (2 ^ 52) \<le> x / u" using b(1) u by (simp add: pe pos_le_divide_eq)
  then have lo: "2 ^ 52 \<le> rne (x / u)" by (rule rne_ge)
  have "x / u \<le> of_int (2 ^ 53)" using b(2) u by (simp add: pe1 pos_divide_le_eq)
  then have hi: "rne (x / u) \<le> 2 ^ 53" by (rule rne_le)
  have r: "rnd x = of_int (rne (x / u)) * u" using assms by (simp add: rnd_pos_eq e_def u_def)
  have "(of_int (2 ^ 52) :: rat) \<le> of_int (rne (x / u))" using lo by (simp only: of_int_le_iff)
  then have "2 ^ 52 * u \<le> rnd x" using u by (simp add: r)
  moreover have "(of_int (rne (x / u)) :: rat) \<le> of_int (2 ^ 53)" using hi by (simp only: of_int_le_iff)
  then have "rnd x \<le> 2 ^ 53 * u" using u by (simp add: r)
  ultimately show ?thesis unfolding e_def[symmetric] pe pe1 by simp
qed

lemma rnd_pos: "0 < x \<Longrightarrow> 0 < rnd x"
  using rnd_binade[of x] powi2_pos[of "ilog2 x"] by linarith

lemma rnd_mono_pos:
  assumes "0 < x" "x \<le> y"
  shows "rnd x \<le> rnd y"
proof -
  have y: "0 < y" using assms by simp
  from ilog2_bounds[OF assms(1)] have bx: "2 powi (ilog2 x) \<le> x" "x < 2 powi (ilog2 x + 1)" by simp_all
  from ilog2_bounds[OF y] have by': "2 powi (ilog2 y) \<le> y" "y < 2 powi (ilog2 y + 1)" by simp_all
  have le: "ilog2 x \<le> ilog2 y"
  proof (rule ccontr)
    assume "\<not> ilog2 x \<le> ilog2 y"
    then have "ilog2 y + 1 \<le> ilog2 x" by simp
    then have "(2::rat) powi (ilog2 y + 1) \<le> 2 powi (ilog2 x)" by (rule powi2_mono)
    with bx(1) by'(2) assms(2) show False by simp
  qed
  show ?thesis
  proof (cases "ilog2 x = ilog2 y")
    case True
    have "x / 2 powi (ilog2 y - 52) \<le> y / 2 powi (ilog2 y - 52)"
      using assms(2) by (simp add: divide_right_mono)
    then have "rne (x / 2 powi (ilog2 y - 52)) \<le> rne (y / 2 powi (ilog2 y - 52))" by (rule rne_mono)
    then have "(of_int (rne (x / 2 powi (ilog2 y - 52))) :: rat) \<le> of_int (rne (y / 2 powi (ilog2 y - 52)))"
      by (simp only: of_int_le_iff)
    then show ?thesis using assms(1) y True by (simp add: rnd_pos_eq)
  next
    case False
    with le have "ilog2 x + 1 \<le> ilog2 y" by simp
    then have "(2::rat) powi (ilog2 x + 1) \<le> 2 powi (ilog2 y)" by (rule powi2_mono)
    with rnd_binade[OF assms(1)] rnd_binade[OF y] show ?thesis by linarith
  qed
qed

lemma rnd_mono: "x \<le> y \<Longrightarrow> rnd x \<le> rnd y"
proof -
  assume le: "x \<le> y"
  consider "0 < x" | "x = 0" "0 < y" | "x = 0" "y = 0" | "x < 0" "0 \<le> y" | "y < 0"
    using le by linarith
  then show ?thesis
  proof cases
    case 1
    then show ?thesis using le by (rule rnd_mono_pos)
  next
    case 2
    then show ?thesis using rnd_pos[of y] by simp
  next
    case 3
    then show ?thesis by simp
  next
    case 4
    have "0 < rnd (- x)" using 4(1) by (intro rnd_pos) simp
    then have "rnd x < 0" using rnd_minus[of x] by simp
    moreover have "0 \<le> rnd y" using 4(2) rnd_pos[of y] by (cases "y = 0") (simp_all add: less_imp_le)
    ultimately show ?thesis by simp
  next
    case 5
    then have "rnd (- y) \<le> rnd (- x)" using le by (intro rnd_mono_pos) simp_all
    then show ?thesis by (simp add: rnd_minus)
  qed
qed

lemma rnd_eqI:
  assumes x: "0 < x" and u: "u = 2 powi e"
    and lo: "2 ^ 52 * u \<le> x" and hi: "x < 2 ^ 53 * u"
    and m: "(2 * of_int m - 1 < 2 * (x / u) \<and> 2 * (x / u) < 2 * of_int m + 1)
           \<or> (even m \<and> (2 * (x / u) = 2 * of_int m - 1 \<or> 2 * (x / u) = 2 * of_int m + 1))"
  shows "rnd x = of_int m * u"
proof -
  have p: "(2::rat) powi (e + 52) = 2 ^ 52 * u"
    using powi2_split[of "e + 52"] by (simp add: u)
  have p1: "(2::rat) powi (e + 52 + 1) = 2 ^ 53 * u"
    unfolding powi2_Suc p by simp
  have l: "2 powi (e + 52) \<le> x" unfolding p by (rule lo)
  have h: "x < 2 powi (e + 52 + 1)" unfolding p1 by (rule hi)
  have "ilog2 x = e + 52" using x l h by (rule ilog2_unique)
  then have "rnd x = of_int (rne (x / u)) * u" using x by (simp add: rnd_pos_eq u)
  then show ?thesis using rne_eqI[OF m] by simp
qed

lemma rnd_idem: "rnd (rnd x) = rnd x"
proof -
  have pos: "rnd (rnd x) = rnd x" if x: "0 < x" for x
  proof -
    define e where "e = ilog2 x"
    define u where "u = (2::rat) powi (e - 52)"
    define m where "m = rne (x / u)"
    have u: "0 < u" by (simp add: u_def)
    have r: "rnd x = of_int m * u" using x by (simp add: rnd_pos_eq e_def u_def m_def)
    from rnd_binade[OF x] have b: "2 powi e \<le> rnd x" "rnd x \<le> 2 powi (e + 1)" by (simp_all add: e_def)
    have pe: "(2::rat) powi e = 2 ^ 52 * u" unfolding u_def by (rule powi2_split)
    have pe1: "(2::rat) powi (e + 1) = 2 ^ 53 * u"
      unfolding powi2_Suc pe by simp
    have rp: "0 < rnd x" using x by (rule rnd_pos)
    show ?thesis
    proof (cases "rnd x < 2 powi (e + 1)")
      case True
      have "rnd (rnd x) = of_int m * u"
      proof (rule rnd_eqI[where e = "e - 52"])
        show "0 < rnd x" by (rule rp)
        show "u = 2 powi (e - 52)" by (simp add: u_def)
        show "2 ^ 52 * u \<le> rnd x" using b(1) by (simp add: pe)
        show "rnd x < 2 ^ 53 * u" using True by (simp add: pe1)
        show "(2 * of_int m - 1 < 2 * (rnd x / u) \<and> 2 * (rnd x / u) < 2 * of_int m + 1)
           \<or> (even m \<and> (2 * (rnd x / u) = 2 * of_int m - 1 \<or> 2 * (rnd x / u) = 2 * of_int m + 1))"
          using u by (simp add: r)
      qed
      then show ?thesis by (simp add: r)
    next
      case False
      with b(2) have eq: "rnd x = 2 powi (e + 1)" by simp
      have "rnd (rnd x) = of_int (2 ^ 52) * (2 * u)"
      proof (rule rnd_eqI[where e = "e - 51"])
        show "0 < rnd x" by (rule rp)
        have "e - 52 + 1 = e - 51" by simp
        then show "2 * u = 2 powi (e - 51)"
          using powi2_Suc[of "e - 52"] by (simp only: u_def)
        show "2 ^ 52 * (2 * u) \<le> rnd x" by (simp add: eq pe1)
        show "rnd x < 2 ^ 53 * (2 * u)" using u by (simp add: eq pe1)
        show "(2 * of_int (2 ^ 52) - 1 < 2 * (rnd x / (2 * u)) \<and> 2 * (rnd x / (2 * u)) < 2 * of_int (2 ^ 52) + 1)
           \<or> (even ((2::int) ^ 52) \<and> (2 * (rnd x / (2 * u)) = 2 * of_int (2 ^ 52) - 1 \<or> 2 * (rnd x / (2 * u)) = 2 * of_int (2 ^ 52) + 1))"
          using u by (simp add: eq pe1)
      qed
      then show ?thesis by (simp add: eq pe1)
    qed
  qed
  consider "0 < x" | "x = 0" | "x < 0" by linarith
  then show ?thesis
  proof cases
    case 1
    then show ?thesis by (rule pos)
  next
    case 2
    then show ?thesis by simp
  next
    case 3
    then have "rnd (rnd (- x)) = rnd (- x)" by (intro pos) simp
    then show ?thesis by (simp add: rnd_minus)
  qed
qed

lemma rnd_of_int:
  assumes "\<bar>n\<bar> < 2 ^ 53"
  shows "rnd (of_int n) = of_int n"
proof -
  have pos: "rnd (of_int n) = of_int n" if n: "0 < n" "n < 2 ^ 53" for n :: int
  proof -
    define x :: rat where "x = of_int n"
    define E where "E = ilog2 x"
    define u where "u = (2::rat) powi (E - 52)"
    have x: "0 < x" using n(1) by (simp add: x_def)
    from ilog2_bounds[OF x] have b: "2 powi E \<le> x" "x < 2 powi (E + 1)" by (simp_all add: E_def)
    have E: "E \<le> 52"
    proof (rule ccontr)
      assume "\<not> E \<le> 52"
      then have "(2::rat) powi 53 \<le> 2 powi E" by (intro powi2_mono) simp
      with b(1) have "(2::rat) ^ 53 \<le> of_int n" by (simp add: x_def)
      then have "(of_int (2 ^ 53) :: rat) \<le> of_int n" by simp
      then have "(2::int) ^ 53 \<le> n" by (simp only: of_int_le_iff)
      with n(2) show False by simp
    qed
    have u: "0 < u" by (simp add: u_def)
    have ui: "u = 1 / 2 ^ nat (52 - E)"
      using E by (simp add: u_def power_int_def field_simps)
    define m where "m = n * 2 ^ nat (52 - E)"
    have xm: "x / u = of_int m" by (simp add: ui m_def x_def)
    have pe: "(2::rat) powi E = 2 ^ 52 * u" unfolding u_def by (rule powi2_split)
    have pe1: "(2::rat) powi (E + 1) = 2 ^ 53 * u" unfolding powi2_Suc pe by simp
    have "rnd x = of_int m * u"
    proof (rule rnd_eqI[where e = "E - 52"])
      show "0 < x" by (rule x)
      show "u = 2 powi (E - 52)" by (simp add: u_def)
      show "2 ^ 52 * u \<le> x" using b(1) unfolding pe .
      show "x < 2 ^ 53 * u" using b(2) unfolding pe1 .
      show "(2 * of_int m - 1 < 2 * (x / u) \<and> 2 * (x / u) < 2 * of_int m + 1)
           \<or> (even m \<and> (2 * (x / u) = 2 * of_int m - 1 \<or> 2 * (x / u) = 2 * of_int m + 1))"
        by (simp add: xm)
    qed
    also have "of_int m * u = x" using xm u by (simp add: field_simps)
    finally show ?thesis by (simp add: x_def)
  qed
  consider "0 < n" | "n = 0" | "n < 0" by linarith
  then show ?thesis
  proof cases
    case 1
    then show ?thesis using assms by (intro pos) simp_all
  next
    case 2
    then show ?thesis by simp
  next
    case 3
    then have "rnd (of_int (- n)) = of_int (- n)" using assms by (intro pos) simp_all
    then show ?thesis using rnd_minus[of "of_int n"] by simp
  qed
qed

lemma rnd_numeral: "numeral k < (2::int) ^ 53 \<Longrightarrow> rnd (numeral k) = numeral k"
  using rnd_of_int[of "numeral k"] by simp

lemma rnd_1 [simp]: "rnd 1 = 1"
  using rnd_of_int[of 1] by simp

lemma powi2_neg_numeral: "(2::rat) powi (- numeral k) = 1 / 2 ^ numeral k"
  by (simp add: power_int_def power_one_over)

text \<open>
  The familiar example of binary64 arithmetic: a tenth plus two tenths is not three
  tenths.
\<close>

lemma tenth: "js_div 1 10 = 3602879701896397 / 36028797018963968"
proof -
  have "rnd (1 / 10) = of_int 7205759403792794 * 2 powi (- 56)"
    by (rule rnd_eqI[where e = "- 56"]) (simp_all add: powi2_neg_numeral)
  then show ?thesis by (simp add: js_div_def powi2_neg_numeral)
qed

lemma two_tenths: "js_div 2 10 = 3602879701896397 / 18014398509481984"
proof -
  have "rnd (2 / 10) = of_int 7205759403792794 * 2 powi (- 55)"
    by (rule rnd_eqI[where e = "- 55"]) (simp_all add: powi2_neg_numeral)
  then show ?thesis by (simp add: js_div_def powi2_neg_numeral)
qed

lemma three_tenths: "js_div 3 10 = 5404319552844595 / 18014398509481984"
proof -
  have "rnd (3 / 10) = of_int 5404319552844595 * 2 powi (- 54)"
    by (rule rnd_eqI[where e = "- 54"]) (simp_all add: powi2_neg_numeral)
  then show ?thesis by (simp add: js_div_def powi2_neg_numeral)
qed

lemma tenth_plus_two_tenths: "js_add (3602879701896397 / 36028797018963968) (3602879701896397 / 18014398509481984) = 1351079888211149 / 4503599627370496"
proof -
  have "rnd ((3602879701896397 / 36028797018963968) + (3602879701896397 / 18014398509481984)) = of_int 5404319552844596 * 2 powi (- 54)"
    by (rule rnd_eqI[where e = "- 54"]) (simp_all add: powi2_neg_numeral)
  then show ?thesis by (simp add: js_add_def powi2_neg_numeral)
qed

lemma binary64_sum: "js_add (js_div 1 10) (js_div 2 10) \<noteq> js_div 3 10"
  by (simp add: tenth two_tenths three_tenths tenth_plus_two_tenths)

section \<open>The encoder: what an advancement does to the state\<close>

text \<open>
  Events never touch the counter, the calls, the cursor or the encoder's open state, and
  only add to the muxer; \<^verbatim>\<open>stop()\<close> is never undone. The freeze-frame loop, when
  it returns, has appended some number of calls and left the cursor alone. From these,
  an advancement that returns has either yielded a date, having appended the stepped
  frame and the freeze frames and moved the cursor by one frame duration, or has left
  calls, counter and cursor as they were.
\<close>

lemma freeze_calls_0 [simp]: "freeze_calls fd d t c 0 = []"
  by (simp add: freeze_calls_def)

lemma length_freeze_calls [simp]: "length (freeze_calls fd d t c n) = n"
  by (simp add: freeze_calls_def)

lemma freeze_calls_Suc:
  "freeze_calls fd d t c (Suc n) =
     \<lparr>frame_timestamp = t, frame_duration = fd, frame_date = d,
      keyFrame = ((c + 1) mod 150 = 0)\<rparr> # freeze_calls fd d (js_add t fd) (Suc c) n"
proof -
  have upt: "[0..<Suc n] = 0 # map Suc [0..<n]"
    by (simp add: upt_conv_Cons map_Suc_upt del: upt_Suc)
  have swap: "\<And>k. js_add (((\<lambda>x. js_add x fd) ^^ k) t) fd
                 = ((\<lambda>x. js_add x fd) ^^ k) (js_add t fd)"
    using funpow_swap1[of "\<lambda>x. js_add x fd"] by simp
  show ?thesis
    unfolding freeze_calls_def upt by (simp add: swap comp_def del: upt_Suc)
qed

lemma apply_event_fields [simp]:
  "frameCount (apply_event s e) = frameCount s"
  "encoded (apply_event s e) = encoded s"
  "timestamp (apply_event s e) = timestamp s"
  "encoder_closed (apply_event s e) = encoder_closed s"
  by (cases e; simp add: stop_def)+

lemma apply_event_muxer: "prefix (muxer s) (muxer (apply_event s e))"
  by (cases e) (simp_all add: stop_def)


lemma apply_events_fields [simp]:
  "frameCount (apply_events es s) = frameCount s"
  "encoded (apply_events es s) = encoded s"
  "timestamp (apply_events es s) = timestamp s"
  "encoder_closed (apply_events es s) = encoder_closed s"
  unfolding apply_events_def by (induction es arbitrary: s; simp)+

lemma apply_events_muxer: "prefix (muxer s) (muxer (apply_events es s))"
  unfolding apply_events_def
proof (induction es arbitrary: s)
  case Nil
  show ?case by simp
next
  case (Cons e es)
  have "prefix (muxer s) (muxer (apply_event s e))" by (rule apply_event_muxer)
  also have "prefix \<dots> (muxer (foldl apply_event (apply_event s e) es))" by (rule Cons.IH)
  finally show ?case by simp
qed



lemma await_events_fields [simp]:
  "frameCount (snd (await_events env s)) = frameCount s"
  "encoded (snd (await_events env s)) = encoded s"
  "timestamp (snd (await_events env s)) = timestamp s"
  "encoder_closed (snd (await_events env s)) = encoder_closed s"
  by (simp_all add: await_events_def split: list.splits)

lemma await_events_muxer: "prefix (muxer s) (muxer (snd (await_events env s)))"
  by (simp add: await_events_def apply_events_muxer split: list.splits)


lemma encode_fields [simp]:
  "frameCount (encode t fd d s) = Suc (frameCount s)"
  "encoded (encode t fd d s) = encoded s @
     [\<lparr>frame_timestamp = t, frame_duration = fd, frame_date = d,
       keyFrame = (Suc (frameCount s) mod 150 = 0)\<rparr>]"
  "timestamp (encode t fd d s) = timestamp s"
  "encoder_closed (encode t fd d s) = encoder_closed s"
  "muxer (encode t fd d s) = muxer s"
  "error (encode t fd d s) = error s"
  "stopRequested (encode t fd d s) = stopRequested s"
  by (simp_all add: encode_def Let_def)

lemma freeze_frames_trace:
  "freeze_frames fd fz d env t s = Some s' \<Longrightarrow>
   \<exists>n. encoded s' = encoded s @ freeze_calls fd d t (frameCount s) n
     \<and> frameCount s' = frameCount s + n
     \<and> timestamp s' = timestamp s
     \<and> encoder_closed s' = encoder_closed s
     \<and> prefix (muxer s) (muxer s')"
proof (induction rule: freeze_frames.raw_induct[rotated 1, consumes 1])
  case (1 ff fd fz d env t s s')
  show ?case
  proof (cases "t < js_add (timestamp s) (js_mul fz 1000000)")
    case False
    with 1(2) have "s' = s" by simp
    then show ?thesis by (intro exI[of _ 0]) simp
  next
    case True
    obtain env' s2 where aw: "await_events env (encode t fd d s) = (env', s2)"
      by (cases "await_events env (encode t fd d s)")
    then have s2: "s2 = snd (await_events env (encode t fd d s))" by simp
    from 1(2) True aw have "ff fd fz d env' (js_add t fd) s2 = Some s'" by simp
    from 1(1)[OF this] obtain n where
      n: "encoded s' = encoded s2 @ freeze_calls fd d (js_add t fd) (frameCount s2) n"
         "frameCount s' = frameCount s2 + n" "timestamp s' = timestamp s2"
         "encoder_closed s' = encoder_closed s2" "prefix (muxer s2) (muxer s')"
      by blast
    have "prefix (muxer s) (muxer s2)"
      using await_events_muxer[of "encode t fd d s" env] by (simp add: s2)
    with n(5) have "prefix (muxer s) (muxer s')" by (meson prefix_order.trans)
    then show ?thesis
      using n(1-4) by (intro exI[of _ "Suc n"]) (simp add: s2 freeze_calls_Suc)
  qed
qed

lemma timelapse_next_done:
  "timelapse_next opts env (TimelapseDone, s) = Some (Return, TimelapseDone, snd (await_events env s))"
  by (simp add: timelapse_next_def case_prod_beta)

lemma timelapse_next_exhausted:
  "g \<noteq> TimelapseDone \<Longrightarrow>
   fst (dates_next (worker opts) (startDate opts) (endDate opts) (interval opts) (dates_of g)) = None \<Longrightarrow>
   timelapse_next opts env (g, s) = Some (Return, TimelapseDone, snd (await_events env s))"
  by (cases g) (simp_all add: timelapse_next_def dates_of_def case_prod_beta)

lemma timelapse_next_error:
  "g \<noteq> TimelapseDone \<Longrightarrow>
   fst (dates_next (worker opts) (startDate opts) (endDate opts) (interval opts) (dates_of g)) = Some d \<Longrightarrow>
   error (snd (await_events env s)) = Some msg \<Longrightarrow>
   timelapse_next opts env (g, s) = Some (Throw msg, TimelapseDone, snd (await_events env s))"
  by (cases g) (simp_all add: timelapse_next_def dates_of_def case_prod_beta)

lemma timelapse_next_stopped:
  "g \<noteq> TimelapseDone \<Longrightarrow>
   fst (dates_next (worker opts) (startDate opts) (endDate opts) (interval opts) (dates_of g)) = Some d \<Longrightarrow>
   error (snd (await_events env s)) = None \<Longrightarrow>
   stopRequested (snd (await_events env s)) \<Longrightarrow>
   timelapse_next opts env (g, s) = Some (Return, TimelapseDone, snd (await_events env s))"
  by (cases g) (simp_all add: timelapse_next_def dates_of_def case_prod_beta)

lemma timelapse_next_frame:
  assumes "g \<noteq> TimelapseDone"
    and "dates_next (worker opts) (startDate opts) (endDate opts) (interval opts) (dates_of g) = (Some d, dg')"
    and "error (snd (await_events env s)) = None"
    and "\<not> stopRequested (snd (await_events env s))"
  shows "timelapse_next opts env (g, s) =
    (let fd = js_div 1000000 (fps opts);
         env1 = fst (await_events env s); s0 = snd (await_events env s);
         env2 = fst (await_events env1 s0); s1 = snd (await_events env1 s0);
         env3 = fst (await_events env2 (encode (timestamp s1) fd d s1));
         s3 = snd (await_events env2 (encode (timestamp s1) fd d s1));
         s4 = s3\<lparr>timestamp := js_add (timestamp s3) fd\<rparr>
     in if days d \<ge> days (endDate opts) then
          Option.bind (freeze_frames fd (freezeFrame opts) d env3 (timestamp s4) s4)
            (\<lambda>s5. Some (Yield d, TimelapseAt dg', s5))
        else Some (Yield d, TimelapseAt dg', s4))"
  using assms
  by (cases g) (simp_all add: timelapse_next_def dates_of_def case_prod_beta Let_def)

lemma timelapse_next_trace:
  assumes "timelapse_next opts env (g, s) = Some (r, g', s')"
  shows "encoder_closed s' = encoder_closed s \<and> prefix (muxer s) (muxer s') \<and>
     (case r of
        Yield d \<Rightarrow>
          \<exists>n. encoded s' = encoded s @
                 \<lparr>frame_timestamp = timestamp s,
                  frame_duration = js_div 1000000 (fps opts), frame_date = d,
                  keyFrame = (Suc (frameCount s) mod 150 = 0)\<rparr> #
                 freeze_calls (js_div 1000000 (fps opts)) d
                   (js_add (timestamp s) (js_div 1000000 (fps opts))) (Suc (frameCount s)) n
             \<and> frameCount s' = Suc (frameCount s) + n
             \<and> timestamp s' = js_add (timestamp s) (js_div 1000000 (fps opts))
      | _ \<Rightarrow> encoded s' = encoded s \<and> frameCount s' = frameCount s
             \<and> timestamp s' = timestamp s)"
proof -
  define fd where "fd = js_div 1000000 (fps opts)"
  define s0 where "s0 = snd (await_events env s)"
  define env1 where "env1 = fst (await_events env s)"
  have p0: "prefix (muxer s) (muxer s0)" unfolding s0_def by (rule await_events_muxer)
  have quiet: "r = Return \<or> (\<exists>m. r = Throw m) \<Longrightarrow> s' = s0 \<Longrightarrow> ?thesis"
    using p0 by (auto simp: s0_def)
  obtain od dg' where dn:
    "dates_next (worker opts) (startDate opts) (endDate opts) (interval opts) (dates_of g) = (od, dg')"
    by (cases "dates_next (worker opts) (startDate opts) (endDate opts) (interval opts) (dates_of g)")
  consider (finished) "g = TimelapseDone"
    | (exhausted) "g \<noteq> TimelapseDone" "od = None"
    | (err) d m where "g \<noteq> TimelapseDone" "od = Some d" "error s0 = Some m"
    | (stopped) d where "g \<noteq> TimelapseDone" "od = Some d" "error s0 = None" "stopRequested s0"
    | (frame) d where "g \<noteq> TimelapseDone" "od = Some d" "error s0 = None" "\<not> stopRequested s0"
    by (cases od; cases "error s0"; cases "stopRequested s0"; cases "g = TimelapseDone") auto
  then show ?thesis
  proof cases
    case finished
    with assms have "r = Return" "s' = s0" by (simp_all add: timelapse_next_done s0_def)
    then show ?thesis by (intro quiet) auto
  next
    case exhausted
    with dn have "timelapse_next opts env (g, s) = Some (Return, TimelapseDone, s0)"
      by (simp add: timelapse_next_exhausted s0_def)
    with assms have "r = Return" "s' = s0" by simp_all
    then show ?thesis by (intro quiet) auto
  next
    case err
    with dn have "timelapse_next opts env (g, s) = Some (Throw m, TimelapseDone, s0)"
      using timelapse_next_error[of g opts d env s m] by (simp add: s0_def)
    with assms have "r = Throw m" "s' = s0" by simp_all
    then show ?thesis by (intro quiet) auto
  next
    case stopped
    with dn have "timelapse_next opts env (g, s) = Some (Return, TimelapseDone, s0)"
      using timelapse_next_stopped[of g opts d env s] by (simp add: s0_def)
    with assms have "r = Return" "s' = s0" by simp_all
    then show ?thesis by (intro quiet) auto
  next
    case frame
    define s1 where "s1 = snd (await_events env1 s0)"
    define env2 where "env2 = fst (await_events env1 s0)"
    define s3 where "s3 = snd (await_events env2 (encode (timestamp s1) fd d s1))"
    define env3 where "env3 = fst (await_events env2 (encode (timestamp s1) fd d s1))"
    define s4 where "s4 = s3\<lparr>timestamp := js_add (timestamp s3) fd\<rparr>"
    have p1: "prefix (muxer s0) (muxer s1)" unfolding s1_def by (rule await_events_muxer)
    have p3: "prefix (muxer s1) (muxer s3)"
      using await_events_muxer[of "encode (timestamp s1) fd d s1" env2] by (simp add: s3_def)
    have p4: "prefix (muxer s) (muxer s4)"
      using p0 p1 p3 by (auto simp: s4_def intro: prefix_order.trans)
    have ts: "timestamp s1 = timestamp s" "timestamp s3 = timestamp s"
      by (simp_all add: s3_def s1_def s0_def)
    have e4: "encoded s4 = encoded s @
        [\<lparr>frame_timestamp = timestamp s, frame_duration = fd, frame_date = d,
          keyFrame = (Suc (frameCount s) mod 150 = 0)\<rparr>]"
      by (simp add: s4_def s3_def s1_def s0_def)
    have c4: "frameCount s4 = Suc (frameCount s)" "encoder_closed s4 = encoder_closed s"
      "timestamp s4 = js_add (timestamp s) fd"
      by (simp_all add: s4_def s3_def s1_def s0_def)
    have eq: "timelapse_next opts env (g, s) =
        (if days d \<ge> days (endDate opts) then
           Option.bind (freeze_frames fd (freezeFrame opts) d env3 (timestamp s4) s4)
             (\<lambda>s5. Some (Yield d, TimelapseAt dg', s5))
         else Some (Yield d, TimelapseAt dg', s4))"
      using timelapse_next_frame[of g opts d dg' env s] frame dn
      by (simp add: Let_def fd_def s0_def env1_def s1_def env2_def s3_def env3_def s4_def)
    show ?thesis
    proof (cases "days d \<ge> days (endDate opts)")
      case False
      with assms eq have "r = Yield d" "s' = s4" by simp_all
      then show ?thesis using p4 e4 c4 by (auto simp: fd_def intro: exI[of _ 0])
    next
      case True
      with assms eq obtain s5 where
        fr: "freeze_frames fd (freezeFrame opts) d env3 (timestamp s4) s4 = Some s5"
        and r: "r = Yield d" "s' = s5"
        by (auto simp: bind_eq_Some_conv)
      from freeze_frames_trace[OF fr] obtain n where
        n: "encoded s5 = encoded s4 @ freeze_calls fd d (timestamp s4) (frameCount s4) n"
           "frameCount s5 = frameCount s4 + n" "timestamp s5 = timestamp s4"
           "encoder_closed s5 = encoder_closed s4" "prefix (muxer s4) (muxer s5)"
        by blast
      have "prefix (muxer s) (muxer s5)" using p4 n(5) by (meson prefix_order.trans)
      then show ?thesis using r n(1-4) e4 c4 by (auto simp: fd_def intro: exI[of _ n])
    qed
  qed
qed

section \<open>stop and finish\<close>

text \<open>
  Claim C10. \<^verbatim>\<open>stop()\<close> sets the flag and nothing else: it has no failure to
  report (it is a total function of the state), calling it twice is calling it once, and
  the captured error, the timestamp cursor, the frame counter, the calls made to the
  encoder, the chunks in the muxer and the encoder's open or closed state are unchanged.
\<close>

theorem stop_only_sets_flag:
  "stopRequested (stop s) \<and> stop (stop s) = stop s
   \<and> error (stop s) = error s \<and> timestamp (stop s) = timestamp s
   \<and> frameCount (stop s) = frameCount s \<and> encoded (stop s) = encoded s
   \<and> muxer (stop s) = muxer s \<and> encoder_closed (stop s) = encoder_closed s
   \<and> stop s = s\<lparr>stopRequested := True\<rparr>"
  by (simp add: stop_def)

text \<open>
  Claim C5 fails as stated: when the muxer has nothing to return, \<^verbatim>\<open>finish()\<close>
  throws before it reaches \<^verbatim>\<open>encoder.close()\<close>, and the encoder stays open. Here the
  muxer of a new encoder finalizes to nothing.
\<close>

theorem finish_failure_keeps_encoder_open:
  "fst (finish (\<lambda>chunks. None :: nat option) new_encoder) = Inl ''empty muxer''
   \<and> \<not> encoder_closed (snd (finish (\<lambda>chunks. None :: nat option) new_encoder))"
  by (simp add: finish_def new_encoder_def)

text \<open>
  Claim C5, amended. \<^verbatim>\<open>finish()\<close> fails with "empty muxer" whenever the muxer's
  finalization yields no data, and then leaves the state, the open encoder included, as
  it was; when finalization yields a buffer, \<^verbatim>\<open>finish()\<close> returns it, and closing the
  encoder is the one change it makes to the state.
\<close>

theorem finish_cases:
  "(finalize (muxer s) = None \<longrightarrow> finish finalize s = (Inl ''empty muxer'', s))
   \<and> (\<forall>out. finalize (muxer s) = Some out \<longrightarrow>
          finish finalize s = (Inr out, s\<lparr>encoder_closed := True\<rparr>))"
  by (simp add: finish_def)

theorem finish_cases_witness:
  "finish (\<lambda>chunks. None :: nat option) new_encoder = (Inl ''empty muxer'', new_encoder)
   \<and> finish (\<lambda>chunks. Some (length chunks)) new_encoder
       = (Inr 0, new_encoder\<lparr>encoder_closed := True\<rparr>)"
  using finish_cases[of "\<lambda>chunks. None :: nat option" new_encoder]
        finish_cases[of "\<lambda>chunks. Some (length chunks)" new_encoder]
  by (simp add: new_encoder_def)

section \<open>Codec negotiation: properties\<close>

lemma js_mul_commute: "js_mul x y = js_mul y x"
  by (simp add: js_mul_def mult.commute)

text \<open>
  Claim C6. Every capability query carries the variable bitrate mode and the bitrate
  \<open>min (width * height / 4 * (fps / 15) + 200000) 2000000\<close>, computed with JavaScript's
  arithmetic. VP9 is asked first; if the platform reports it supported, it is selected
  and VP8 is never asked. If VP9 is refused (reported unsupported, or the query fails,
  which the source treats alike), VP8 is asked and selected if supported; if it is
  refused too, the search fails with "No supported codecs found". The selected
  configuration is the one the platform answered with, tagged with the muxer codec.
\<close>

theorem findSupportedEncoder_cases:
  fixes isConfigSupported :: "VideoEncoderConfig \<Rightarrow> VideoEncoderSupport option"
    and h w rate :: rat
  defines "query \<equiv> \<lambda>c. \<lparr>codec = c, height = h, width = w, bitrateMode = ''variable'',
       bitrate = min (js_add (js_mul (js_div (js_mul w h) 4) (js_div rate 15)) 200000) 2000000,
       framerate = rate\<rparr>"
  defines "refused \<equiv> \<lambda>q. isConfigSupported q = None
                 \<or> (\<exists>sup. isConfigSupported q = Some sup \<and> \<not> supported sup)"
  shows
   "(\<forall>sup. isConfigSupported (query ''vp09.00.10.08'') = Some sup \<and> supported sup \<longrightarrow>
       findSupportedEncoder isConfigSupported h w rate =
         (Inr (VideoEncoderConfig.extend (config sup) (EncoderConfig.fields ''V_VP9'')),
          [query ''vp09.00.10.08'']))
    \<and> (refused (query ''vp09.00.10.08'') \<longrightarrow>
         (\<forall>sup. isConfigSupported (query ''vp8'') = Some sup \<and> supported sup \<longrightarrow>
            findSupportedEncoder isConfigSupported h w rate =
              (Inr (VideoEncoderConfig.extend (config sup) (EncoderConfig.fields ''V_VP8'')),
               [query ''vp09.00.10.08'', query ''vp8'']))
         \<and> (refused (query ''vp8'') \<longrightarrow>
              findSupportedEncoder isConfigSupported h w rate =
                (Inl ''No supported codecs found'', [query ''vp09.00.10.08'', query ''vp8''])))"
  unfolding query_def refused_def findSupportedEncoder_def codecs_def
  by (auto simp: Let_def js_mul_commute[of h w] split: option.splits)

text \<open>
  At 1920 by 1080 and 30 frames per second the bitrate is 1236800, and a platform
  without VP9 is asked twice and gives VP8.
\<close>

lemma bitrate_1080p_30: "js_add (js_mul (js_div (js_mul 1920 1080) 4) (js_div 30 15)) 200000 = 1236800"
  by (simp add: js_add_def js_mul_def js_div_def rnd_numeral)

theorem findSupportedEncoder_cases_witness:
  "findSupportedEncoder vp8_only 1080 1920 30 =
     (Inr \<lparr>codec = ''vp8'', height = 1080, width = 1920, bitrateMode = ''variable'',
           bitrate = 1236800, framerate = 30, webmCodec = ''V_VP8''\<rparr>,
      [\<lparr>codec = ''vp09.00.10.08'', height = 1080, width = 1920, bitrateMode = ''variable'',
        bitrate = 1236800, framerate = 30\<rparr>,
       \<lparr>codec = ''vp8'', height = 1080, width = 1920, bitrateMode = ''variable'',
        bitrate = 1236800, framerate = 30\<rparr>])"
  using findSupportedEncoder_cases[of vp8_only 1080 1920 30]
  by (simp add: vp8_only_def bitrate_1080p_30 VideoEncoderConfig.extend_def
        EncoderConfig.fields_def)

section \<open>Running the definitions\<close>

text \<open>
  Arithmetic on whole numbers below \<open>2^53\<close> is exact, which the simplifier can use on
  numerals; the definitions of an advancement unfold on concrete inputs.
\<close>

lemmas whole_arith = js_add_def js_mul_def js_div_def rnd_numeral

lemmas run_defs = timelapse_next_def dates_of_def dates_next_def await_events_def
  apply_events_def encode_def new_encoder_def day_def calendar_worker_def stop_def Let_def

lemma js_add_int:
  "\<bar>a + b\<bar> < 2 ^ 53 \<Longrightarrow> js_add (of_int a) (of_int b) = of_int (a + b)"
  using rnd_of_int[of "a + b"] by (simp add: js_add_def)

lemma freeze_frames_exact:
  assumes D: "0 < D" and T: "0 \<le> T" and range: "T + int k * D < 2 ^ 53"
    and hold: "js_mul fz 1000000 = of_int (int k * D)"
  shows "j \<le> k \<Longrightarrow> timestamp s = of_int T \<Longrightarrow>
     \<exists>s'. freeze_frames (of_int D) fz d env (of_int (T + int (k - j) * D)) s = Some s'
        \<and> frameCount s' = frameCount s + j"
proof (induction j arbitrary: env s)
  case 0
  have kd: "0 \<le> int k * D" using D by simp
  have bound: "js_add (timestamp s) (js_mul fz 1000000) = of_int (T + int k * D)"
    unfolding hold "0.prems"(2) using T range kd by (intro js_add_int) simp
  show ?case
    by (subst freeze_frames.simps) (simp add: bound)
next
  case (Suc j)
  have kd: "0 \<le> int k * D" using D by simp
  have bound: "js_add (timestamp s) (js_mul fz 1000000) = of_int (T + int k * D)"
    unfolding hold Suc.prems(2) using T range kd by (intro js_add_int) simp
  define t where "t = T + int (k - Suc j) * D"
  have lt: "int (k - Suc j) * D < int k * D" using Suc.prems(1) D by simp
  have tlt: "(of_int t :: rat) < of_int (T + int k * D)"
    unfolding of_int_less_iff t_def using lt by simp
  have step: "t + D = T + int (k - j) * D"
  proof -
    have "int (k - j) = int (k - Suc j) + 1" using Suc.prems(1) by simp
    then show ?thesis by (simp add: t_def algebra_simps)
  qed
  have "int (k - j) * D \<le> int k * D" using D by simp
  moreover have "0 \<le> int (k - j) * D" using D by simp
  ultimately have "\<bar>t + D\<bar> < 2 ^ 53" using T range unfolding step by simp
  then have next_t: "js_add (of_int t) (of_int D) = of_int (T + int (k - j) * D)"
    using js_add_int[of t D] by (simp add: step)
  define s2 where "s2 = snd (await_events env (encode (of_int t) (of_int D) d s))"
  define env' where "env' = fst (await_events env (encode (of_int t) (of_int D) d s))"
  have ts2: "timestamp s2 = of_int T" using Suc.prems(2) by (simp add: s2_def)
  have j: "j \<le> k" using Suc.prems(1) by simp
  from Suc.IH[OF j ts2, of env'] obtain s' where
    s': "freeze_frames (of_int D) fz d env' (of_int (T + int (k - j) * D)) s2 = Some s'"
        "frameCount s' = frameCount s2 + j"
    by blast
  have "freeze_frames (of_int D) fz d env (of_int t) s = Some s'"
    apply (subst freeze_frames.simps)
    using tlt s'(1) by (simp add: bound next_t case_prod_beta s2_def env'_def)
  then show ?case using s'(2) by (simp add: t_def s2_def)
qed

lemma run_50fps:
  "\<exists>s'. timelapse_steps opts_50fps [[]] (TimelapseFresh, new_encoder)
          = Some (TimelapseAt (DatesAt (day 0)), s')
       \<and> frameCount s' = 151"
proof -
  have d: "js_div 1000000 50 = 20000" by (simp add: js_div_def rnd_numeral)
  have c: "js_add 0 20000 = 20000" by (simp add: js_add_def rnd_numeral)
  have h: "js_mul 3 1000000 = of_int (int 150 * 20000)" by (simp add: js_mul_def rnd_numeral)
  define s4 where "s4 = (encode 0 20000 (day 0) new_encoder)\<lparr>timestamp := 20000\<rparr>"
  have "\<exists>s'. freeze_frames (of_int 20000) 3 (day 0) [] (of_int (20000 + int (150 - 150) * 20000)) s4 = Some s'
        \<and> frameCount s' = frameCount s4 + 150"
    by (rule freeze_frames_exact[where k = 150 and T = 20000]) (simp_all add: h s4_def)
  then obtain s' where
    s': "freeze_frames 20000 3 (day 0) [] 20000 s4 = Some s'"
        "frameCount s' = frameCount s4 + 150"
    by auto
  have "timelapse_next opts_50fps [] (TimelapseFresh, new_encoder)
          = Some (Yield (day 0), TimelapseAt (DatesAt (day 0)), s')"
    using s'(1) unfolding s4_def
    by (simp add: timelapse_next_def dates_of_def dates_next_def await_events_def
          opts_50fps_def d c Let_def new_encoder_def day_def)
  moreover have "frameCount new_encoder = 0" by (simp add: new_encoder_def)
  ultimately show ?thesis using s'(2) by (simp add: s4_def)
qed

section \<open>The frame counter and the keyframe flag\<close>

text \<open>
  The flags of the calls an advancement appends follow the counter, and so do those of
  any succession of advancements.
\<close>

lemma nth_freeze_calls:
  "k < n \<Longrightarrow> freeze_calls fd d t c n ! k =
     \<lparr>frame_timestamp = ((\<lambda>x. js_add x fd) ^^ k) t, frame_duration = fd, frame_date = d,
      keyFrame = ((c + k + 1) mod 150 = 0)\<rparr>"
  by (simp add: freeze_calls_def)

lemma timelapse_next_cadence:
  assumes "timelapse_next opts env (g, s) = Some (r, g', s')"
  shows "\<exists>new. encoded s' = encoded s @ new \<and> frameCount s' = frameCount s + length new
     \<and> (\<forall>i<length new. keyFrame (new ! i) \<longleftrightarrow> (frameCount s + i + 1) mod 150 = 0)"
proof (cases r)
  case (Yield d)
  with timelapse_next_trace[OF assms] obtain n where
    n: "encoded s' = encoded s @
          \<lparr>frame_timestamp = timestamp s, frame_duration = js_div 1000000 (fps opts),
           frame_date = d, keyFrame = (Suc (frameCount s) mod 150 = 0)\<rparr> #
          freeze_calls (js_div 1000000 (fps opts)) d
            (js_add (timestamp s) (js_div 1000000 (fps opts))) (Suc (frameCount s)) n"
       "frameCount s' = Suc (frameCount s) + n"
    by auto
  show ?thesis
  proof (intro exI conjI allI impI)
    show "encoded s' = encoded s @
          \<lparr>frame_timestamp = timestamp s, frame_duration = js_div 1000000 (fps opts),
           frame_date = d, keyFrame = (Suc (frameCount s) mod 150 = 0)\<rparr> #
          freeze_calls (js_div 1000000 (fps opts)) d
            (js_add (timestamp s) (js_div 1000000 (fps opts))) (Suc (frameCount s)) n"
      by (rule n(1))
    show "frameCount s' = frameCount s + length (\<lparr>frame_timestamp = timestamp s, frame_duration = js_div 1000000 (fps opts),
           frame_date = d, keyFrame = (Suc (frameCount s) mod 150 = 0)\<rparr> #
          freeze_calls (js_div 1000000 (fps opts)) d
            (js_add (timestamp s) (js_div 1000000 (fps opts))) (Suc (frameCount s)) n)"
      using n(2) by simp
  next
    fix i
    assume "i < length (\<lparr>frame_timestamp = timestamp s, frame_duration = js_div 1000000 (fps opts),
           frame_date = d, keyFrame = (Suc (frameCount s) mod 150 = 0)\<rparr> #
          freeze_calls (js_div 1000000 (fps opts)) d
            (js_add (timestamp s) (js_div 1000000 (fps opts))) (Suc (frameCount s)) n)"
    then show "keyFrame ((\<lparr>frame_timestamp = timestamp s, frame_duration = js_div 1000000 (fps opts),
           frame_date = d, keyFrame = (Suc (frameCount s) mod 150 = 0)\<rparr> #
          freeze_calls (js_div 1000000 (fps opts)) d
            (js_add (timestamp s) (js_div 1000000 (fps opts))) (Suc (frameCount s)) n) ! i)
        \<longleftrightarrow> (frameCount s + i + 1) mod 150 = 0"
      by (cases i) (simp_all add: nth_freeze_calls)
  qed
next
  case Return
  with timelapse_next_trace[OF assms] show ?thesis by (intro exI[of _ "[]"]) simp
next
  case (Throw m)
  with timelapse_next_trace[OF assms] show ?thesis by (intro exI[of _ "[]"]) simp
qed

lemma timelapse_steps_cadence:
  "timelapse_steps opts envs (g, s) = Some (g', s') \<Longrightarrow>
   \<exists>new. encoded s' = encoded s @ new \<and> frameCount s' = frameCount s + length new
     \<and> (\<forall>i<length new. keyFrame (new ! i) \<longleftrightarrow> (frameCount s + i + 1) mod 150 = 0)"
proof (induction envs arbitrary: g s)
  case Nil
  then show ?case by (intro exI[of _ "[]"]) simp
next
  case (Cons env envs)
  from Cons.prems obtain r g1 s1 where
    st: "timelapse_next opts env (g, s) = Some (r, g1, s1)"
    and rest: "timelapse_steps opts envs (g1, s1) = Some (g', s')"
    by (auto split: option.splits)
  from timelapse_next_cadence[OF st] obtain new1 where
    n1: "encoded s1 = encoded s @ new1" "frameCount s1 = frameCount s + length new1"
        "\<forall>i<length new1. keyFrame (new1 ! i) \<longleftrightarrow> (frameCount s + i + 1) mod 150 = 0"
    by blast
  from Cons.IH[OF rest] obtain new2 where
    n2: "encoded s' = encoded s1 @ new2" "frameCount s' = frameCount s1 + length new2"
        "\<forall>i<length new2. keyFrame (new2 ! i) \<longleftrightarrow> (frameCount s1 + i + 1) mod 150 = 0"
    by blast
  have "\<forall>i<length (new1 @ new2).
          keyFrame ((new1 @ new2) ! i) \<longleftrightarrow> (frameCount s + i + 1) mod 150 = 0"
  proof (intro allI impI)
    fix i assume i: "i < length (new1 @ new2)"
    show "keyFrame ((new1 @ new2) ! i) \<longleftrightarrow> (frameCount s + i + 1) mod 150 = 0"
    proof (cases "i < length new1")
      case True
      then show ?thesis using n1(3) by (simp add: nth_append)
    next
      case False
      then have j: "i - length new1 < length new2" using i by simp
      have "frameCount s1 + (i - length new1) + 1 = frameCount s + i + 1"
        using False n1(2) by simp
      then show ?thesis using n2(3) j False by (simp add: nth_append)
    qed
  qed
  then show ?case using n1(1,2) n2(1,2) by (intro exI[of _ "new1 @ new2"]) simp
qed

text \<open>
  Claim C2. Over any succession of advancements of the generator that return, whatever
  arrives while it is suspended, the calls of \<^verbatim>\<open>encode\<close> are appended to those made before,
  the frame counter grows by exactly the number of new calls (one per call; nothing
  resets it, the freeze-frame phase included), and a call carries the keyframe flag
  exactly when the counter after its increment is divisible by 150. For a new encoder
  the counter starts at 0, so these are the 150th, 300th, ... calls.
\<close>

theorem keyframe_cadence:
  assumes "timelapse_steps opts envs (g, s) = Some (g', s')"
  shows "\<exists>new. encoded s' = encoded s @ new \<and> frameCount s' = frameCount s + length new
     \<and> (\<forall>i<length new. keyFrame (new ! i) \<longleftrightarrow> (frameCount s + i + 1) mod 150 = 0)"
  using assms by (rule timelapse_steps_cadence)

text \<open>
  A single date at 50 frames per second held for three seconds: 151 calls, of which
  the 150th alone is a keyframe.
\<close>

theorem keyframe_cadence_witness:
  "\<exists>s'. timelapse_steps opts_50fps [[]] (TimelapseFresh, new_encoder)
          = Some (TimelapseAt (DatesAt (day 0)), s')
       \<and> frameCount s' = 151 \<and> length (encoded s') = 151
       \<and> \<not> keyFrame (encoded s' ! 148) \<and> keyFrame (encoded s' ! 149)
       \<and> \<not> keyFrame (encoded s' ! 150)"
proof -
  from run_50fps obtain s' where
    run: "timelapse_steps opts_50fps [[]] (TimelapseFresh, new_encoder)
            = Some (TimelapseAt (DatesAt (day 0)), s')"
    and n: "frameCount s' = 151"
    by blast
  from keyframe_cadence[OF run] obtain new where
    new: "encoded s' = encoded new_encoder @ new"
         "frameCount s' = frameCount new_encoder + length new"
         "\<forall>i<length new. keyFrame (new ! i) \<longleftrightarrow> (frameCount new_encoder + i + 1) mod 150 = 0"
    by blast
  have e: "encoded s' = new" "length new = 151"
    using new(1,2) n by (simp_all add: new_encoder_def)
  have "\<not> keyFrame (new ! 148)" "keyFrame (new ! 149)" "\<not> keyFrame (new ! 150)"
    using new(3) e(2) by (simp_all add: new_encoder_def)
  then show ?thesis using run n e by auto
qed

section \<open>The number of freeze frames\<close>

text \<open>
  When the frame rate divides 1000000, the frame duration is a whole number of
  microseconds; with a hold of whole seconds and timestamps below \<open>2^53\<close> every sum
  the loop forms is exact, and the count is the product: an advancement encodes one
  frame, and \<open>freezeFrame * fps\<close> more on the final date, and a complete run with no
  stop and no error over the \<open>N\<close> dates of the sequencer makes \<open>N + freezeFrame * fps\<close>
  calls.
\<close>

lemma timelapse_next_exact:
  assumes rate: "fps opts = of_int P" "0 < P" "P * D = 1000000"
    and hold: "freezeFrame opts = of_int F" "0 \<le> F"
    and cur: "timestamp s = of_int T" "0 \<le> T" "T + D + F * 1000000 < 2 ^ 53"
    and g: "g \<noteq> TimelapseDone"
    and dn: "dates_next (worker opts) (startDate opts) (endDate opts) (interval opts) (dates_of g)
             = (Some d, dg')"
    and ok: "error (snd (await_events env s)) = None" "\<not> stopRequested (snd (await_events env s))"
  shows "\<exists>s'. timelapse_next opts env (g, s) = Some (Yield d, TimelapseAt dg', s')
       \<and> frameCount s' = frameCount s + 1
            + (if days (endDate opts) \<le> days d then nat (F * P) else 0)
       \<and> timestamp s' = of_int (T + D)"
proof -
  have D: "0 < D" using rate(2,3) by (metis mult_pos_pos zero_less_mult_pos zero_less_numeral)
  have "(1000000::rat) / of_int P = of_int D"
  proof -
    have "(of_int (P * D) :: rat) = 1000000" using rate(3) by simp
    then show ?thesis using rate(2) by (simp add: field_simps)
  qed
  then have fd: "js_div 1000000 (fps opts) = of_int D"
    using rnd_of_int[of D] cur(2,3) hold(2) D by (simp add: js_div_def rate(1))
  define s0 where "s0 = snd (await_events env s)"
  define env1 where "env1 = fst (await_events env s)"
  define s1 where "s1 = snd (await_events env1 s0)"
  define env2 where "env2 = fst (await_events env1 s0)"
  define s3 where "s3 = snd (await_events env2 (encode (timestamp s1) (of_int D) d s1))"
  define env3 where "env3 = fst (await_events env2 (encode (timestamp s1) (of_int D) d s1))"
  define s4 where "s4 = s3\<lparr>timestamp := js_add (timestamp s3) (of_int D)\<rparr>"
  have ts3: "timestamp s3 = of_int T" by (simp add: s3_def s1_def s0_def cur(1))
  have "\<bar>T + D\<bar> < 2 ^ 53" using cur(2,3) hold(2) D by simp
  then have ts4: "timestamp s4 = of_int (T + D)"
    using js_add_int[of T D] by (simp add: s4_def ts3)
  have c4: "frameCount s4 = frameCount s + 1" by (simp add: s4_def s3_def s1_def s0_def)
  have eq: "timelapse_next opts env (g, s) =
        (if days d \<ge> days (endDate opts) then
           Option.bind (freeze_frames (of_int D) (freezeFrame opts) d env3 (timestamp s4) s4)
             (\<lambda>s5. Some (Yield d, TimelapseAt dg', s5))
         else Some (Yield d, TimelapseAt dg', s4))"
    using timelapse_next_frame[OF g dn ok]
    by (simp add: Let_def fd s0_def env1_def s1_def env2_def s3_def env3_def s4_def)
  show ?thesis
  proof (cases "days d \<ge> days (endDate opts)")
    case False
    then show ?thesis using eq ts4 c4 by simp
  next
    case True
    define k where "k = nat (F * P)"
    have kD: "int k * D = F * 1000000"
    proof -
      have "0 \<le> F * P" using hold(2) rate(2) by simp
      then have "int k * D = F * (P * D)" by (simp add: k_def mult.assoc)
      then show ?thesis by (simp add: rate(3))
    qed
    have "\<bar>F * 1000000\<bar> < 2 ^ 53" using cur(2,3) hold(2) D by simp
    then have h: "js_mul (freezeFrame opts) 1000000 = of_int (int k * D)"
      using rnd_of_int[of "F * 1000000"] by (simp add: js_mul_def hold(1) kD)
    have "\<exists>s'. freeze_frames (of_int D) (freezeFrame opts) d env3
              (of_int ((T + D) + int (k - k) * D)) s4 = Some s'
            \<and> frameCount s' = frameCount s4 + k"
    proof (rule freeze_frames_exact[where k = k])
      show "0 < D" by (rule D)
      show "0 \<le> T + D" using cur(2) D by simp
      show "T + D + int k * D < 2 ^ 53" using cur(3) by (simp add: kD)
      show "js_mul (freezeFrame opts) 1000000 = of_int (int k * D)" by (rule h)
      show "k \<le> k" by simp
      show "timestamp s4 = of_int (T + D)" by (rule ts4)
    qed
    then obtain s' where
      s': "freeze_frames (of_int D) (freezeFrame opts) d env3 (timestamp s4) s4 = Some s'"
          "frameCount s' = frameCount s4 + k"
      by (auto simp: ts4)
    from freeze_frames_trace[OF s'(1)] have "timestamp s' = timestamp s4" by blast
    then show ?thesis using True eq s' c4 ts4 by (simp add: k_def)
  qed
qed

lemma await_events_nil [simp]: "await_events [] s = ([], s)"
  by (simp add: await_events_def)

lemma freeze_frames_quiet:
  "freeze_frames fd fz d env t s = Some s' \<Longrightarrow> env = [] \<Longrightarrow>
   error s' = error s \<and> stopRequested s' = stopRequested s \<and> muxer s' = muxer s"
proof (induction rule: freeze_frames.raw_induct[rotated 1, consumes 1])
  case (1 ff fd fz d env t s s')
  show ?case
  proof (cases "t < js_add (timestamp s) (js_mul fz 1000000)")
    case False
    with 1(2) show ?thesis by simp
  next
    case True
    with 1(2,3) have "ff fd fz d [] (js_add t fd) (encode t fd d s) = Some s'" by simp
    from 1(1)[OF this] show ?thesis by simp
  qed
qed

lemma dates_next_Some_At:
  "dates_next w a b step dg = (Some d, dg') \<Longrightarrow> dg' = DatesAt d"
  by (auto simp: dates_next_def Let_def split: dates_gen.splits if_splits)

lemma dates_from_Nil:
  "dates_from w a b step dg = Some [] \<Longrightarrow> fst (dates_next w a b step dg) = None"
  by (subst (asm) dates_from.simps) (auto split: prod.splits option.splits simp: bind_eq_Some_conv)

lemma dates_from_Cons:
  "dates_from w a b step dg = Some (d # ds) \<Longrightarrow>
   dates_next w a b step dg = (Some d, DatesAt d) \<and> dates_from w a b step (DatesAt d) = Some ds"
proof -
  assume h: "dates_from w a b step dg = Some (d # ds)"
  obtain od dg' where dn: "dates_next w a b step dg = (od, dg')"
    by (cases "dates_next w a b step dg")
  from h dn have "od = Some d \<and> dates_from w a b step dg' = Some ds"
    by (subst (asm) dates_from.simps) (auto split: option.splits simp: bind_eq_Some_conv)
  then show ?thesis using dn dates_next_Some_At[of w a b step dg d dg'] by simp
qed

lemma complete_run_from:
  assumes rate: "fps opts = of_int P" "0 < P" "P * D = 1000000"
    and hold: "freezeFrame opts = of_int F" "0 \<le> F"
  shows "dates_from (worker opts) (startDate opts) (endDate opts) (interval opts) (dates_of g)
           = Some ds \<Longrightarrow>
     g \<noteq> TimelapseDone \<Longrightarrow> error s = None \<Longrightarrow> \<not> stopRequested s \<Longrightarrow>
     timestamp s = of_int T \<Longrightarrow> 0 \<le> T \<Longrightarrow>
     T + int (length ds) * D + F * 1000000 < 2 ^ 53 \<Longrightarrow>
     \<exists>s'. timelapse_steps opts (replicate (Suc (length ds)) []) (g, s) = Some (TimelapseDone, s')
        \<and> frameCount s' = frameCount s + length ds + (if ds = [] then 0 else nat (F * P))"
proof (induction ds arbitrary: g s T)
  case Nil
  from dates_from_Nil[OF Nil.prems(1)] Nil.prems(2)
  have "timelapse_next opts [] (g, s) = Some (Return, TimelapseDone, s)"
    by (simp add: timelapse_next_exhausted)
  then show ?case by simp
next
  case (Cons d ds)
  have D: "0 < D" using rate(2,3) by (metis mult_pos_pos zero_less_mult_pos zero_less_numeral)
  from dates_from_Cons[OF Cons.prems(1)] have
    dn: "dates_next (worker opts) (startDate opts) (endDate opts) (interval opts) (dates_of g)
           = (Some d, DatesAt d)"
    and rest: "dates_from (worker opts) (startDate opts) (endDate opts) (interval opts) (DatesAt d)
           = Some ds"
    by simp_all
  have range1: "T + D + F * 1000000 < 2 ^ 53"
  proof -
    have "0 \<le> int (length ds) * D" using D by simp
    then show ?thesis using Cons.prems(7) by (simp add: algebra_simps)
  qed
  have ok: "error (snd (await_events [] s)) = None" "\<not> stopRequested (snd (await_events [] s))"
    using Cons.prems(3,4) by simp_all
  from timelapse_next_exact[OF rate hold Cons.prems(5,6) range1 Cons.prems(2) dn ok]
  obtain s1 where
    s1: "timelapse_next opts [] (g, s) = Some (Yield d, TimelapseAt (DatesAt d), s1)"
        "frameCount s1 = frameCount s + 1
            + (if days (endDate opts) \<le> days d then nat (F * P) else 0)"
        "timestamp s1 = of_int (T + D)"
    by blast
  have quiet: "error s1 = None \<and> \<not> stopRequested s1"
  proof -
    define fd where "fd = js_div 1000000 (fps opts)"
    define s4 where "s4 = (encode (timestamp s) fd d s)\<lparr>timestamp := js_add (timestamp s) fd\<rparr>"
    have q4: "error s4 = None" "\<not> stopRequested s4"
      using Cons.prems(3,4) by (simp_all add: s4_def)
    have eq: "timelapse_next opts [] (g, s) =
        (if days d \<ge> days (endDate opts) then
              Option.bind (freeze_frames fd (freezeFrame opts) d [] (timestamp s4) s4)
                (\<lambda>s5. Some (Yield d, TimelapseAt (DatesAt d), s5))
            else Some (Yield d, TimelapseAt (DatesAt d), s4))"
      using timelapse_next_frame[OF Cons.prems(2) dn ok] by (simp add: Let_def fd_def s4_def)
    show ?thesis
    proof (cases "days d \<ge> days (endDate opts)")
      case False
      with eq s1(1) have "s1 = s4" by simp
      then show ?thesis using q4 by simp
    next
      case True
      with eq s1(1) have "Option.bind (freeze_frames fd (freezeFrame opts) d [] (timestamp s4) s4)
                (\<lambda>s5. Some (Yield d, TimelapseAt (DatesAt d), s5))
              = Some (Yield d, TimelapseAt (DatesAt d), s1)"
        by simp
      then have "freeze_frames fd (freezeFrame opts) d [] (timestamp s4) s4 = Some s1"
        by (auto simp: bind_eq_Some_conv)
      from freeze_frames_quiet[OF this] show ?thesis using q4 by simp
    qed
  qed
  have range2: "(T + D) + int (length ds) * D + F * 1000000 < 2 ^ 53"
    using Cons.prems(7) by (simp add: algebra_simps)
  have T1: "0 \<le> T + D" using Cons.prems(6) D by simp
  have g1: "TimelapseAt (DatesAt d) \<noteq> TimelapseDone" by simp
  have rest': "dates_from (worker opts) (startDate opts) (endDate opts) (interval opts)
                 (dates_of (TimelapseAt (DatesAt d))) = Some ds"
    using rest by (simp add: dates_of_def)
  have q1: "error s1 = None" and q2: "\<not> stopRequested s1" using quiet by simp_all
  from Cons.IH[OF rest' g1 q1 q2 s1(3) T1 range2] obtain s' where
    s': "timelapse_steps opts (replicate (Suc (length ds)) []) (TimelapseAt (DatesAt d), s1)
           = Some (TimelapseDone, s')"
        "frameCount s' = frameCount s1 + length ds + (if ds = [] then 0 else nat (F * P))"
    by blast
  have last_iff: "ds = [] \<longleftrightarrow> days (endDate opts) \<le> days d"
  proof
    assume "ds = []"
    with rest have "fst (dates_next (worker opts) (startDate opts) (endDate opts) (interval opts)
                      (DatesAt d)) = None"
      using dates_from_Nil by blast
    then show "days (endDate opts) \<le> days d"
      by (auto simp: dates_next_def Let_def split: if_splits)
  next
    assume "days (endDate opts) \<le> days d"
    then have "dates_from (worker opts) (startDate opts) (endDate opts) (interval opts) (DatesAt d)
                 = Some []"
      by (rule dates_from_at_end)
    with rest show "ds = []" by simp
  qed
  have "timelapse_steps opts (replicate (Suc (length (d # ds))) []) (g, s) = Some (TimelapseDone, s')"
    using s1(1) s'(1) by simp
  moreover have "frameCount s' = frameCount s + length (d # ds) + nat (F * P)"
    using s1(2) s'(2) last_iff by auto
  ultimately show ?case by simp
qed

lemma complete_run_exact:
  assumes "fps opts = of_int P" "0 < P" "P * D = 1000000"
    and "freezeFrame opts = of_int F" "0 \<le> F"
    and "dates (worker opts) (startDate opts) (endDate opts) (interval opts) = Some ds"
    and "int (length ds) * D + F * 1000000 < 2 ^ 53"
  shows "\<exists>s'. timelapse_steps opts (replicate (Suc (length ds)) []) (TimelapseFresh, new_encoder)
             = Some (TimelapseDone, s')
       \<and> length (encoded s') = length ds + nat (F * P)"
proof -
  have ds: "ds \<noteq> []" using assms(6) by (auto simp: dates_fresh bind_eq_Some_conv)
  have d: "dates_from (worker opts) (startDate opts) (endDate opts) (interval opts)
             (dates_of TimelapseFresh) = Some ds"
    using assms(6) by (simp add: dates_def dates_of_def)
  have "\<exists>s'. timelapse_steps opts (replicate (Suc (length ds)) []) (TimelapseFresh, new_encoder)
             = Some (TimelapseDone, s')
        \<and> frameCount s' = frameCount new_encoder + length ds
              + (if ds = [] then 0 else nat (F * P))"
    using assms(7) by (intro complete_run_from[OF assms(1-5) d, where T = 0])
       (simp_all add: new_encoder_def)
  then obtain s' where
    s': "timelapse_steps opts (replicate (Suc (length ds)) []) (TimelapseFresh, new_encoder)
             = Some (TimelapseDone, s')"
        "frameCount s' = length ds + nat (F * P)"
    using ds by (auto simp: new_encoder_def)
  from timelapse_steps_cadence[OF s'(1)] have "length (encoded s') = frameCount s'"
    by (auto simp: new_encoder_def)
  then show ?thesis using s' by auto
qed

text \<open>
  The arithmetic of the run at 6 frames per second, each step checked against its
  significand: the frame duration \<open>1000000 / 6\<close> is not a binary fraction, and six
  additions of it from the cursor end just below the cursor plus one second.
\<close>

lemma fps6_duration: "js_div 1000000 6 = 5726623061333333 / 34359738368"
proof -
  have "rnd (1000000 / 6) = of_int 5726623061333333 * 2 powi (- 35)"
    by (rule rnd_eqI[where e = "- 35"]) (simp_all add: powi2_neg_numeral)
  then show ?thesis by (simp add: js_div_def powi2_neg_numeral)
qed

lemma fps6_cursor: "js_add 0 (5726623061333333 / 34359738368) = 5726623061333333 / 34359738368"
proof -
  have "rnd (0 + (5726623061333333 / 34359738368)) = of_int 5726623061333333 * 2 powi (- 35)"
    by (rule rnd_eqI[where e = "- 35"]) (simp_all add: powi2_neg_numeral)
  then show ?thesis by (simp add: js_add_def powi2_neg_numeral)
qed

lemma fps6_hold: "js_mul 1 1000000 = 1000000"
proof -
  have "rnd (1 * 1000000) = of_int 8589934592000000 * 2 powi (- 33)"
    by (rule rnd_eqI[where e = "- 33"]) (simp_all add: powi2_neg_numeral)
  then show ?thesis by (simp add: js_mul_def powi2_neg_numeral)
qed

lemma fps6_bound: "js_add (5726623061333333 / 34359738368) 1000000 = 5010795178666667 / 4294967296"
proof -
  have "rnd ((5726623061333333 / 34359738368) + 1000000) = of_int 5010795178666667 * 2 powi (- 32)"
    by (rule rnd_eqI[where e = "- 32"]) (simp_all add: powi2_neg_numeral)
  then show ?thesis by (simp add: js_add_def powi2_neg_numeral)
qed

lemma fps6_t1: "js_add (5726623061333333 / 34359738368) (5726623061333333 / 34359738368) = 5726623061333333 / 17179869184"
proof -
  have "rnd ((5726623061333333 / 34359738368) + (5726623061333333 / 34359738368)) = of_int 5726623061333333 * 2 powi (- 34)"
    by (rule rnd_eqI[where e = "- 34"]) (simp_all add: powi2_neg_numeral)
  then show ?thesis by (simp add: js_add_def powi2_neg_numeral)
qed

lemma fps6_t2: "js_add (5726623061333333 / 17179869184) (5726623061333333 / 34359738368) = 500000"
proof -
  have "rnd ((5726623061333333 / 17179869184) + (5726623061333333 / 34359738368)) = of_int 8589934592000000 * 2 powi (- 34)"
    by (rule rnd_eqI[where e = "- 34"]) (simp_all add: powi2_neg_numeral)
  then show ?thesis by (simp add: js_add_def powi2_neg_numeral)
qed

lemma fps6_t3: "js_add 500000 (5726623061333333 / 34359738368) = 5726623061333333 / 8589934592"
proof -
  have "rnd (500000 + (5726623061333333 / 34359738368)) = of_int 5726623061333333 * 2 powi (- 33)"
    by (rule rnd_eqI[where e = "- 33"]) (simp_all add: powi2_neg_numeral)
  then show ?thesis by (simp add: js_add_def powi2_neg_numeral)
qed

lemma fps6_t4: "js_add (5726623061333333 / 8589934592) (5726623061333333 / 34359738368) = 3579139413333333 / 4294967296"
proof -
  have "rnd ((5726623061333333 / 8589934592) + (5726623061333333 / 34359738368)) = of_int 7158278826666666 * 2 powi (- 33)"
    by (rule rnd_eqI[where e = "- 33"]) (simp_all add: powi2_neg_numeral)
  then show ?thesis by (simp add: js_add_def powi2_neg_numeral)
qed

lemma fps6_t5: "js_add (3579139413333333 / 4294967296) (5726623061333333 / 34359738368) = 8589934591999999 / 8589934592"
proof -
  have "rnd ((3579139413333333 / 4294967296) + (5726623061333333 / 34359738368)) = of_int 8589934591999999 * 2 powi (- 33)"
    by (rule rnd_eqI[where e = "- 33"]) (simp_all add: powi2_neg_numeral)
  then show ?thesis by (simp add: js_add_def powi2_neg_numeral)
qed

lemma fps6_t6: "js_add (8589934591999999 / 8589934592) (5726623061333333 / 34359738368) = 2505397589333333 / 2147483648"
proof -
  have "rnd ((8589934591999999 / 8589934592) + (5726623061333333 / 34359738368)) = of_int 5010795178666666 * 2 powi (- 32)"
    by (rule rnd_eqI[where e = "- 32"]) (simp_all add: powi2_neg_numeral)
  then show ?thesis by (simp add: js_add_def powi2_neg_numeral)
qed

lemma fps6_t7: "js_add (2505397589333333 / 2147483648) (5726623061333333 / 34359738368) = 5726623061333333 / 4294967296"
proof -
  have "rnd ((2505397589333333 / 2147483648) + (5726623061333333 / 34359738368)) = of_int 5726623061333333 * 2 powi (- 32)"
    by (rule rnd_eqI[where e = "- 32"]) (simp_all add: powi2_neg_numeral)
  then show ?thesis by (simp add: js_add_def powi2_neg_numeral)
qed

lemmas fps6_arith = fps6_duration fps6_cursor fps6_hold fps6_bound fps6_t1 fps6_t2 fps6_t3 fps6_t4 fps6_t5 fps6_t6 fps6_t7

lemma run6:
  "\<exists>s. timelapse_next opts_6fps [] (TimelapseFresh, new_encoder)
         = Some (Yield (day 0), TimelapseAt (DatesAt (day 0)), s)
       \<and> timelapse_next opts_6fps [] (TimelapseAt (DatesAt (day 0)), s)
         = Some (Return, TimelapseDone, s)
       \<and> length (encoded s) = 8 \<and> frameCount s = 8"
  by (simp add: timelapse_next_def dates_of_def dates_next_def await_events_def
        encode_def new_encoder_def opts_6fps_def day_def freeze_frames.simps Let_def fps6_arith)

text \<open>
  Claim C3 says that a complete run over \<open>N\<close> dates makes \<open>N + freezeFrame * fps\<close> calls
  of \<^verbatim>\<open>encode\<close>. At 6 frames per second with a hold of one second and a single date,
  the sequencer emits one date and the run makes 8 calls, not \<open>1 + 1 * 6 = 7\<close>: after
  six freeze frames the loop's local time is \<open>1166666.6666666665\<close>, the bound is
  \<open>1166666.6666666667\<close>, and a seventh freeze frame is encoded.
\<close>

theorem freeze_frames_at_6fps:
  "dates calendar_worker (day 0) (day 0) Year = Some [day 0]
   \<and> freezeFrame opts_6fps * fps opts_6fps = 6
   \<and> (\<exists>s. timelapse_next opts_6fps [] (TimelapseFresh, new_encoder)
              = Some (Yield (day 0), TimelapseAt (DatesAt (day 0)), s)
          \<and> timelapse_next opts_6fps [] (TimelapseAt (DatesAt (day 0)), s)
              = Some (Return, TimelapseDone, s)
          \<and> length (encoded s) = 8 \<and> frameCount s = 8)"
proof -
  have "dates calendar_worker (day 0) (day 0) Year = Some [day 0]"
    by (simp add: dates_fresh dates_from_at_end)
  moreover have "freezeFrame opts_6fps * fps opts_6fps = 6" by (simp add: opts_6fps_def)
  ultimately show ?thesis using run6 by simp
qed

section \<open>The timestamp cursor\<close>

text \<open>The run of a single date at one frame per second, held for one second.\<close>

lemma run_1fps:
  "timelapse_next opts_1fps [] (TimelapseFresh, new_encoder)
     = Some (Yield (day 0), TimelapseAt (DatesAt (day 0)), after_one_day None)"
  by (simp add: run_defs opts_1fps_def after_one_day_def freeze_frames.simps whole_arith)

text \<open>
  Claim C4 fails as stated: the cursor is not advanced by the freeze frames. With one
  date, one frame per second and a hold of one second, two frames are encoded (the
  stepped frame and one repeat), and the cursor has moved from 0 by one frame duration,
  1000000, not by two.
\<close>

theorem cursor_behind_freeze_frames:
  "timelapse_next opts_1fps [] (TimelapseFresh, new_encoder)
     = Some (Yield (day 0), TimelapseAt (DatesAt (day 0)), after_one_day None)
   \<and> length (encoded (after_one_day None)) = 2
   \<and> js_div 1000000 (fps opts_1fps) = 1000000
   \<and> timestamp new_encoder = 0 \<and> timestamp (after_one_day None) = 1000000"
  using run_1fps
  by (simp add: after_one_day_def new_encoder_def opts_1fps_def whole_arith)

lemma frame_duration_nonneg: "0 < rate \<Longrightarrow> 0 \<le> js_div 1000000 rate"
proof -
  assume "0 < rate"
  then have "(0::rat) \<le> 1000000 / rate" by simp
  then have "rnd 0 \<le> rnd (1000000 / rate)" by (rule rnd_mono)
  then show ?thesis by (simp add: js_div_def)
qed

lemma js_add_grows: "is_double x \<Longrightarrow> 0 \<le> d \<Longrightarrow> x \<le> js_add x d \<and> is_double (js_add x d)"
proof -
  assume x: "is_double x" and d: "0 \<le> d"
  have "rnd x \<le> rnd (x + d)" using d by (intro rnd_mono) simp
  then show ?thesis using x by (simp add: is_double_def js_add_def rnd_idem)
qed

lemma timelapse_next_frames:
  assumes "timelapse_next opts env (g, s) = Some (r, g', s')"
  shows "\<exists>new. encoded s' = encoded s @ new
      \<and> (\<forall>k<length new.
            frame_timestamp (new ! k)
              = ((\<lambda>t. js_add t (js_div 1000000 (fps opts))) ^^ k) (timestamp s)
            \<and> frame_duration (new ! k) = js_div 1000000 (fps opts))
      \<and> timestamp s' = (if new = [] then timestamp s
                        else js_add (timestamp s) (js_div 1000000 (fps opts)))"
proof (cases r)
  case (Yield d)
  define fd where "fd = js_div 1000000 (fps opts)"
  from Yield timelapse_next_trace[OF assms] obtain n where
    n: "encoded s' = encoded s @
          \<lparr>frame_timestamp = timestamp s, frame_duration = fd,
           frame_date = d, keyFrame = (Suc (frameCount s) mod 150 = 0)\<rparr> #
          freeze_calls fd d (js_add (timestamp s) fd) (Suc (frameCount s)) n"
       "timestamp s' = js_add (timestamp s) fd"
    by (auto simp: fd_def)
  define new where "new = \<lparr>frame_timestamp = timestamp s, frame_duration = fd,
           frame_date = d, keyFrame = (Suc (frameCount s) mod 150 = 0)\<rparr> #
          freeze_calls fd d (js_add (timestamp s) fd) (Suc (frameCount s)) n"
  have swap: "\<And>k. ((\<lambda>t. js_add t fd) ^^ k) (js_add (timestamp s) fd)
                 = js_add (((\<lambda>t. js_add t fd) ^^ k) (timestamp s)) fd"
    using funpow_swap1[of "\<lambda>t. js_add t fd"] by simp
  have "frame_timestamp (new ! k) = ((\<lambda>t. js_add t fd) ^^ k) (timestamp s)
        \<and> frame_duration (new ! k) = fd" if "k < length new" for k
    using that by (cases k) (simp_all add: new_def nth_freeze_calls swap)
  then show ?thesis
    using n unfolding new_def[symmetric] fd_def[symmetric]
    by (intro exI[of _ new]) (simp add: new_def)
next
  case Return
  with timelapse_next_trace[OF assms] show ?thesis by (intro exI[of _ "[]"]) simp
next
  case (Throw m)
  with timelapse_next_trace[OF assms] show ?thesis by (intro exI[of _ "[]"]) simp
qed

lemma timelapse_next_cursor_mono:
  assumes "timelapse_next opts env (g, s) = Some (r, g', s')"
    and "0 < fps opts" and "is_double (timestamp s)"
  shows "timestamp s \<le> timestamp s' \<and> is_double (timestamp s')"
proof -
  from timelapse_next_frames[OF assms(1)]
  have "timestamp s' = timestamp s
        \<or> timestamp s' = js_add (timestamp s) (js_div 1000000 (fps opts))"
    by (auto split: if_splits)
  then show ?thesis
    using js_add_grows[OF assms(3) frame_duration_nonneg[OF assms(2)]] assms(3) by auto
qed

lemma timelapse_steps_cursor_mono:
  "timelapse_steps opts envs (g, s) = Some (g', s') \<Longrightarrow> 0 < fps opts \<Longrightarrow>
   is_double (timestamp s) \<Longrightarrow> timestamp s \<le> timestamp s' \<and> is_double (timestamp s')"
proof (induction envs arbitrary: g s)
  case Nil
  then show ?case by simp
next
  case (Cons env envs)
  from Cons.prems(1) obtain r g1 s1 where
    st: "timelapse_next opts env (g, s) = Some (r, g1, s1)"
    and rest: "timelapse_steps opts envs (g1, s1) = Some (g', s')"
    by (auto split: option.splits)
  from timelapse_next_cursor_mono[OF st Cons.prems(2,3)]
  have a: "timestamp s \<le> timestamp s1" "is_double (timestamp s1)" by simp_all
  from Cons.IH[OF rest Cons.prems(2) a(2)] a(1) show ?case by simp
qed

text \<open>
  Claim C4, amended. In an advancement that encodes frames, the \<open>k\<close>-th frame it
  submits (the stepped frame is the 0-th, the freeze frames follow) has the timestamp
  reached from the cursor by \<open>k\<close> additions of the frame duration, and every frame has
  the frame duration \<open>1000000 / fps\<close>; the cursor itself is advanced by exactly one frame
  duration, for the stepped frame, and not by the freeze frames, whose time is a local
  variable of the loop. An advancement that encodes nothing leaves the cursor alone. For
  a positive frame rate the cursor never decreases over any succession of advancements.
\<close>

theorem timestamp_cursor:
  "(\<forall>r g' s'. timelapse_next opts env (g, s) = Some (r, g', s') \<longrightarrow>
      (\<exists>new. encoded s' = encoded s @ new
         \<and> (\<forall>k<length new.
               frame_timestamp (new ! k)
                 = ((\<lambda>t. js_add t (js_div 1000000 (fps opts))) ^^ k) (timestamp s)
               \<and> frame_duration (new ! k) = js_div 1000000 (fps opts))
         \<and> timestamp s' = (if new = [] then timestamp s
                           else js_add (timestamp s) (js_div 1000000 (fps opts)))))
   \<and> (\<forall>g' s'. timelapse_steps opts envs (g, s) = Some (g', s') \<longrightarrow> 0 < fps opts \<longrightarrow>
         is_double (timestamp s) \<longrightarrow>
         timestamp s \<le> timestamp s' \<and> is_double (timestamp s'))"
  using timelapse_next_frames timelapse_steps_cursor_mono by blast

theorem timestamp_cursor_witness:
  "timelapse_steps opts_1fps [[]] (TimelapseFresh, new_encoder)
     = Some (TimelapseAt (DatesAt (day 0)), after_one_day None)
   \<and> 0 < fps opts_1fps \<and> is_double (timestamp new_encoder)
   \<and> timestamp new_encoder \<le> timestamp (after_one_day None)
   \<and> is_double (timestamp (after_one_day None))
   \<and> (\<exists>new. encoded (after_one_day None) = encoded new_encoder @ new
         \<and> frame_timestamp (new ! 0) = timestamp new_encoder
         \<and> frame_timestamp (new ! 1) = js_add (timestamp new_encoder) 1000000
         \<and> timestamp (after_one_day None) = js_add (timestamp new_encoder) 1000000)"
proof -
  have run: "timelapse_steps opts_1fps [[]] (TimelapseFresh, new_encoder)
     = Some (TimelapseAt (DatesAt (day 0)), after_one_day None)"
    by (simp add: run_1fps)
  have h: "0 < fps opts_1fps" "is_double (timestamp new_encoder)"
    by (simp_all add: opts_1fps_def new_encoder_def is_double_def)
  have fd: "js_div 1000000 (fps opts_1fps) = 1000000"
    by (simp add: opts_1fps_def whole_arith)
  note t = timestamp_cursor[of opts_1fps "[]" TimelapseFresh new_encoder "[[]]"]
  from t run h have mono: "timestamp new_encoder \<le> timestamp (after_one_day None)"
      "is_double (timestamp (after_one_day None))" by blast+
  from t run_1fps obtain new where
    new: "encoded (after_one_day None) = encoded new_encoder @ new"
         "\<forall>k<length new. frame_timestamp (new ! k)
             = ((\<lambda>t. js_add t (js_div 1000000 (fps opts_1fps))) ^^ k) (timestamp new_encoder)
           \<and> frame_duration (new ! k) = js_div 1000000 (fps opts_1fps)"
         "timestamp (after_one_day None) = (if new = [] then timestamp new_encoder
             else js_add (timestamp new_encoder) (js_div 1000000 (fps opts_1fps)))"
    by blast
  have len: "length new = 2" using new(1) by (auto simp: after_one_day_def new_encoder_def)
  have "frame_timestamp (new ! 0) = timestamp new_encoder"
       "frame_timestamp (new ! 1) = js_add (timestamp new_encoder) 1000000"
    using new(2) len by (simp_all add: fd)
  moreover have "timestamp (after_one_day None) = js_add (timestamp new_encoder) 1000000"
    using new(3) len by (auto simp: fd)
  ultimately show ?thesis using run h mono new(1) by blast
qed

section \<open>The checkpoint: captured errors and stop\<close>

text \<open>
  A finished generator stays finished and encodes nothing; a checkpoint reached with the
  stop flag set ends the generator, by a return or, if an error was captured too, by
  throwing it.
\<close>

lemma timelapse_steps_done:
  "\<exists>s'. timelapse_steps opts envs (TimelapseDone, s) = Some (TimelapseDone, s')
       \<and> encoded s' = encoded s \<and> frameCount s' = frameCount s
       \<and> timestamp s' = timestamp s \<and> encoder_closed s' = encoder_closed s
       \<and> prefix (muxer s) (muxer s')"
proof (induction envs arbitrary: s)
  case Nil
  show ?case by simp
next
  case (Cons env envs)
  define s1 where "s1 = snd (await_events env s)"
  from Cons[of s1] obtain s' where
    s': "timelapse_steps opts envs (TimelapseDone, s1) = Some (TimelapseDone, s')"
        "encoded s' = encoded s1" "frameCount s' = frameCount s1"
        "timestamp s' = timestamp s1" "encoder_closed s' = encoder_closed s1"
        "prefix (muxer s1) (muxer s')"
    by blast
  have "prefix (muxer s) (muxer s1)" unfolding s1_def by (rule await_events_muxer)
  with s'(6) have "prefix (muxer s) (muxer s')" by (meson prefix_order.trans)
  then show ?case using s'(1-5) by (simp add: timelapse_next_done s1_def)
qed



text \<open>
  Claim C7 fails as stated: the captured error is read at the checkpoint only. Here the
  error callback runs while the colours of the only date are awaited, after the
  checkpoint: the stepped frame and a freeze frame are still submitted, the date is
  yielded, and the next advancement ends the sequence without throwing.
\<close>

theorem late_error_is_not_thrown:
  "encoded new_encoder = []
   \<and> timelapse_next opts_1fps [[], [EncoderError ''boom'']] (TimelapseFresh, new_encoder)
       = Some (Yield (day 0), TimelapseAt (DatesAt (day 0)), after_one_day (Some ''boom''))
   \<and> length (encoded (after_one_day (Some ''boom''))) = 2
   \<and> timelapse_next opts_1fps [] (TimelapseAt (DatesAt (day 0)), after_one_day (Some ''boom''))
       = Some (Return, TimelapseDone, after_one_day (Some ''boom''))"
  by (simp add: run_defs opts_1fps_def after_one_day_def freeze_frames.simps whole_arith)

text \<open>
  Claim C7, amended. If the captured error is set when the checkpoint of a date is
  reached (the generator is new, or suspended at a date before the end date), that
  advancement throws the captured message, and the generator is finished: no frame is
  submitted for that date, nor by any later advancement.
\<close>

theorem error_at_checkpoint:
  assumes "error (snd (await_events env s)) = Some msg"
    and "g = TimelapseFresh \<or> (\<exists>cur. g = TimelapseAt (DatesAt cur) \<and> days cur < days (endDate opts))"
  shows "timelapse_next opts env (g, s) = Some (Throw msg, TimelapseDone, snd (await_events env s))
       \<and> (\<forall>envs. \<exists>s'. timelapse_steps opts (env # envs) (g, s) = Some (TimelapseDone, s')
             \<and> encoded s' = encoded s)"
proof -
  define s0 where "s0 = snd (await_events env s)"
  have "\<exists>d. fst (dates_next (worker opts) (startDate opts) (endDate opts) (interval opts)
                   (dates_of g)) = Some d"
    using assms(2) by (auto simp: dates_of_def dates_next_def Let_def)
  then obtain d where
    d: "fst (dates_next (worker opts) (startDate opts) (endDate opts) (interval opts) (dates_of g)) = Some d"
    by blast
  have g: "g \<noteq> TimelapseDone" using assms(2) by auto
  from timelapse_next_error[OF g d assms(1)]
  have thr: "timelapse_next opts env (g, s) = Some (Throw msg, TimelapseDone, s0)"
    by (simp add: s0_def)
  have "\<exists>s'. timelapse_steps opts (env # envs) (g, s) = Some (TimelapseDone, s')
             \<and> encoded s' = encoded s" for envs
    using timelapse_steps_done[of opts envs s0] thr by (auto simp: s0_def)
  then show ?thesis using thr by (simp add: s0_def)
qed

lemma run_first_year:
  "timelapse_next opts_years [] (TimelapseFresh, new_encoder)
     = Some (Yield (day 0), TimelapseAt (DatesAt (day 0)), after_first_year)"
  by (simp add: run_defs opts_years_def after_first_year_def freeze_frames.simps whole_arith)

theorem error_at_checkpoint_witness:
  "timelapse_next opts_years [] (TimelapseFresh, new_encoder)
     = Some (Yield (day 0), TimelapseAt (DatesAt (day 0)), after_first_year)
   \<and> days (day 0) < days (endDate opts_years)
   \<and> timelapse_next opts_years [[EncoderError ''boom'']]
        (TimelapseAt (DatesAt (day 0)), after_first_year)
       = Some (Throw ''boom'', TimelapseDone, after_first_year\<lparr>error := Some ''boom''\<rparr>)
   \<and> (\<exists>s'. timelapse_steps opts_years [[[EncoderError ''boom'']], [], []]
               (TimelapseAt (DatesAt (day 0)), after_first_year) = Some (TimelapseDone, s')
            \<and> encoded s' = encoded after_first_year)"
proof -
  have h1: "error (snd (await_events [[EncoderError ''boom'']] after_first_year)) = Some ''boom''"
    by (simp add: await_events_def apply_events_def)
  have h2: "TimelapseAt (DatesAt (day 0)) = TimelapseFresh
            \<or> (\<exists>cur. TimelapseAt (DatesAt (day 0)) = TimelapseAt (DatesAt cur)
                  \<and> days cur < days (endDate opts_years))"
    by (simp add: opts_years_def day_def)
  have s0: "snd (await_events [[EncoderError ''boom'']] after_first_year)
              = after_first_year\<lparr>error := Some ''boom''\<rparr>"
    by (simp add: await_events_def apply_events_def)
  note t = error_at_checkpoint[OF h1 h2, unfolded s0]
  from t have a: "timelapse_next opts_years [[EncoderError ''boom'']]
        (TimelapseAt (DatesAt (day 0)), after_first_year)
       = Some (Throw ''boom'', TimelapseDone, after_first_year\<lparr>error := Some ''boom''\<rparr>)"
    by blast
  from t have b: "\<exists>s'. timelapse_steps opts_years [[[EncoderError ''boom'']], [], []]
               (TimelapseAt (DatesAt (day 0)), after_first_year) = Some (TimelapseDone, s')
            \<and> encoded s' = encoded after_first_year"
    by blast
  have c: "days (day 0) < days (endDate opts_years)" by (simp add: opts_years_def day_def)
  show ?thesis using run_first_year a b c by blast
qed













end
